theory Spec2Isabelle
  imports Main "HOL-Library.Sublist" "HOL-Library.Log_Nat"
begin

section \<open>Python strings\<close>

text \<open>
  A Python \<open>str\<close> is a sequence of Unicode code points, so a string is a list of
  natural numbers and \<open>len\<close> is \<open>length\<close>. String literals of the source are
  written as Isabelle literals and mapped to their code points by \<open>ustr\<close>; the only
  non-ASCII character of the source, the bullet U+2022, is the number 8226.
\<close>

type_synonym ustring = "nat list"

definition ustr :: "string \<Rightarrow> ustring" where
  "ustr s = map of_char s"

text \<open>
  The characters for which \<open>str.isspace\<close> holds. \<open>str.strip()\<close> and \<open>str.split()\<close>
  without argument use this set, and so does \<open>\s\<close> in a \<open>str\<close> pattern of \<open>re\<close>.
\<close>

definition is_space :: "nat \<Rightarrow> bool" where
  "is_space c \<longleftrightarrow>
     (9 \<le> c \<and> c \<le> 13) \<or> (28 \<le> c \<and> c \<le> 32) \<or> c = 133 \<or> c = 160 \<or> c = 5760 \<or>
     (8192 \<le> c \<and> c \<le> 8202) \<or> c = 8232 \<or> c = 8233 \<or> c = 8239 \<or> c = 8287 \<or> c = 12288"

text \<open>
  The characters matched by \<open>\d\<close> in a \<open>str\<close> pattern: the decimal digits of Unicode
  (general category Nd, Unicode 14.0), as inclusive ranges of code points.
\<close>

definition nd_ranges :: "(nat \<times> nat) list" where
  "nd_ranges =
    [(48, 57), (1632, 1641), (1776, 1785), (1984, 1993), (2406, 2415), (2534, 2543),
     (2662, 2671), (2790, 2799), (2918, 2927), (3046, 3055), (3174, 3183), (3302, 3311),
     (3430, 3439), (3558, 3567), (3664, 3673), (3792, 3801), (3872, 3881), (4160, 4169),
     (4240, 4249), (6112, 6121), (6160, 6169), (6470, 6479), (6608, 6617), (6784, 6793),
     (6800, 6809), (6992, 7001), (7088, 7097), (7232, 7241), (7248, 7257), (42528, 42537),
     (43216, 43225), (43264, 43273), (43472, 43481), (43504, 43513), (43600, 43609),
     (44016, 44025), (65296, 65305), (66720, 66729), (68912, 68921), (69734, 69743),
     (69872, 69881), (69942, 69951), (70096, 70105), (70384, 70393), (70736, 70745),
     (70864, 70873), (71248, 71257), (71360, 71369), (71472, 71481), (71904, 71913),
     (72016, 72025), (72784, 72793), (73040, 73049), (73120, 73129), (92768, 92777),
     (92864, 92873), (93008, 93017), (120782, 120831), (123200, 123209), (123632, 123641),
     (125264, 125273), (130032, 130041)]"

definition is_decimal :: "nat \<Rightarrow> bool" where
  "is_decimal c = list_ex (\<lambda>(lo, hi). lo \<le> c \<and> c \<le> hi) nd_ranges"

text \<open>\<open>s.strip()\<close>: leading and trailing whitespace removed.\<close>

definition strip :: "ustring \<Rightarrow> ustring" where
  "strip s = rev (dropWhile is_space (rev (dropWhile is_space s)))"

text \<open>\<open>s.lstrip(chars)\<close>: every leading character that occurs in \<open>chars\<close> removed.\<close>

definition lstrip_chars :: "ustring \<Rightarrow> ustring \<Rightarrow> ustring" where
  "lstrip_chars chars s = dropWhile (\<lambda>c. c \<in> set chars) s"

text \<open>\<open>s.startswith(p)\<close> and \<open>sub in s\<close>.\<close>

definition startswith :: "ustring \<Rightarrow> ustring \<Rightarrow> bool" where
  "startswith s p \<longleftrightarrow> take (length p) s = p"

fun str_contains :: "ustring \<Rightarrow> ustring \<Rightarrow> bool" where
  "str_contains sub [] \<longleftrightarrow> sub = []"
| "str_contains sub (c # cs) \<longleftrightarrow> startswith (c # cs) sub \<or> str_contains sub cs"

text \<open>
  \<open>s.split()\<close> without argument: the maximal runs of non-whitespace characters.
  \<open>cur\<close> is the token being read.
\<close>

fun split_ws_from :: "ustring \<Rightarrow> ustring \<Rightarrow> ustring list" where
  "split_ws_from cur [] = (if cur = [] then [] else [cur])"
| "split_ws_from cur (c # cs) =
     (if is_space c then (if cur = [] then split_ws_from [] cs else cur # split_ws_from [] cs)
      else split_ws_from (cur @ [c]) cs)"

definition split_ws :: "ustring \<Rightarrow> ustring list" where
  "split_ws s = split_ws_from [] s"

subsection \<open>Splitting at the matches of a separator\<close>

text \<open>
  \<open>str.split(sep)\<close> and \<open>re.split(pattern, s)\<close> scan the text from the left, cut at
  every match of the separator and resume after the match, so that matches do not
  overlap; the pieces between the matches are returned, empty ones included. A
  separator is given by a matcher: applied to a suffix of the text it returns the
  length of the match that starts there, if there is one. The separators of this
  program never match the empty string; a length of \<open>0\<close> is read as \<open>1\<close>.
  \<open>cur\<close> is the piece being read.
\<close>

function split_at :: "(ustring \<Rightarrow> nat option) \<Rightarrow> ustring \<Rightarrow> ustring \<Rightarrow> ustring list" where
  "split_at m cur [] = [cur]"
| "split_at m cur (c # cs) =
     (case m (c # cs) of
        Some n \<Rightarrow> cur # split_at m [] (drop (n - 1) cs)
      | None \<Rightarrow> split_at m (cur @ [c]) cs)"
  by pat_completeness auto
termination
  by (relation "measure (\<lambda>(m, cur, t). length t)") auto

text \<open>The literal separator of \<open>str.split(sep)\<close>.\<close>

definition match_literal :: "ustring \<Rightarrow> ustring \<Rightarrow> nat option" where
  "match_literal sep t = (if startswith t sep then Some (length sep) else None)"

definition str_split :: "ustring \<Rightarrow> ustring \<Rightarrow> ustring list" where
  "str_split sep s = split_at (match_literal sep) [] s"

text \<open>
  The pattern \<open>\d+\.\s*\<close>: a maximal run of decimal digits (a shorter run would be
  followed by a digit, not by the period), the period, and all the whitespace that
  follows.
\<close>

definition match_numbered :: "ustring \<Rightarrow> nat option" where
  "match_numbered t =
     (let ds = takeWhile is_decimal t; r = dropWhile is_decimal t
      in if ds \<noteq> [] \<and> startswith r [46]
         then Some (length ds + 1 + length (takeWhile is_space (tl r)))
         else None)"

text \<open>
  The pattern \<open>Review\s*:?\s*\<close> under \<open>re.IGNORECASE\<close>. A letter of the pattern
  matches a character whose lower case is that letter; for the letters of
  \<open>Review\<close> these are the two ASCII forms and, for \<open>i\<close>, also U+0130 and U+0131.
\<close>

definition ci_match :: "nat \<Rightarrow> nat \<Rightarrow> bool" where
  "ci_match p c \<longleftrightarrow> c = p \<or> c + 32 = p \<or> (p = 105 \<and> (c = 304 \<or> c = 305))"

definition match_review :: "ustring \<Rightarrow> nat option" where
  "match_review t =
     (if length t \<ge> 6 \<and> list_all2 ci_match (ustr ''review'') (take 6 t)
      then (let r1 = drop 6 t;
                s1 = takeWhile is_space r1; r2 = dropWhile is_space r1;
                colon = (if startswith r2 [58] then 1 else 0); r3 = drop colon r2;
                s2 = takeWhile is_space r3
            in Some (6 + length s1 + colon + length s2))
      else None)"

section \<open>The review segmenter\<close>

text \<open>\<open>[r.strip() for r in reviews if r.strip()]\<close>\<close>

definition nonempty_stripped :: "ustring list \<Rightarrow> ustring list" where
  "nonempty_stripped reviews = map strip (filter (\<lambda>r. strip r \<noteq> []) reviews)"

definition split_reviews :: "ustring \<Rightarrow> ustring list" where
  "split_reviews text =
     (let reviews = str_split [10, 10] text in
      if length reviews > 1 then nonempty_stripped reviews
      else
        let reviews = split_at match_numbered [] text in
        if length reviews > 1 then nonempty_stripped reviews
        else
          let reviews = split_at match_review [] text in
          if length reviews > 1 then nonempty_stripped reviews
          else if strip text \<noteq> [] then [strip text] else [])"

section \<open>Floating-point arithmetic\<close>

text \<open>
  A Python \<open>float\<close> is an IEEE 754 binary64 number. Only values that are not negative
  occur here: \<open>Finite m e\<close> is the number \<open>m * 2 ^ e\<close>, and \<open>Infinity\<close> is \<open>inf\<close>.
  Every operation rounds its exact result to the nearest representable number, ties
  to the even significand.
\<close>

datatype double = Finite int int | Infinity

text \<open>The integer nearest to \<open>n / d\<close>, ties to even (\<open>0 < d\<close>).\<close>

definition round_half_even :: "int \<Rightarrow> int \<Rightarrow> int" where
  "round_half_even n d =
     (let f = n div d; r = n mod d
      in if 2 * r < d then f else if d < 2 * r then f + 1 else if even f then f else f + 1)"

text \<open>\<open>2 ^ k \<le> n / d\<close>, and the largest such \<open>k\<close> (\<open>0 < n\<close>, \<open>0 < d\<close>).\<close>

definition ge_pow2 :: "int \<Rightarrow> int \<Rightarrow> int \<Rightarrow> bool" where
  "ge_pow2 n d k \<longleftrightarrow> (if 0 \<le> k then d * 2 ^ nat k \<le> n else d \<le> n * 2 ^ nat (- k))"

definition ilog2 :: "int \<Rightarrow> int \<Rightarrow> int" where
  "ilog2 n d = (let k = bitlen n - bitlen d in if ge_pow2 n d k then k else k - 1)"

text \<open>
  The double nearest to \<open>n / d\<close> (\<open>0 \<le> n\<close>, \<open>0 < d\<close>): a significand of 53 bits, or
  fewer below the smallest normal number \<open>2 ^ -1022\<close>; \<open>Infinity\<close> when the rounded
  value reaches \<open>2 ^ 1024\<close>.
\<close>

definition to_double :: "int \<Rightarrow> int \<Rightarrow> double" where
  "to_double n d =
     (if n = 0 then Finite 0 0
      else
        let q = max (ilog2 n d - 52) (- 1074);
            m = (if 0 \<le> q then round_half_even n (d * 2 ^ nat q)
                 else round_half_even (n * 2 ^ nat (- q)) d)
        in if 0 \<le> q \<and> 2 ^ 1024 \<le> m * 2 ^ nat q then Infinity else Finite m q)"

datatype error = ZeroDivisionError | OverflowError | KeyError

text \<open>\<open>a / b\<close> on two \<open>int\<close>s: the correctly rounded quotient.\<close>

definition py_truediv :: "nat \<Rightarrow> nat \<Rightarrow> error + double" where
  "py_truediv a b =
     (if b = 0 then Inl ZeroDivisionError
      else case to_double (int a) (int b) of
             Infinity \<Rightarrow> Inl OverflowError
           | Finite m e \<Rightarrow> Inr (Finite m e))"

text \<open>\<open>x * k\<close> for a \<open>float\<close> \<open>x\<close> and a small positive \<open>int\<close> \<open>k\<close> (here \<open>100\<close>).\<close>

fun py_mul :: "double \<Rightarrow> nat \<Rightarrow> double" where
  "py_mul (Finite m e) k =
     (if 0 \<le> e then to_double (m * int k * 2 ^ nat e) 1
      else to_double (m * int k) (2 ^ nat (- e)))"
| "py_mul Infinity k = Infinity"

text \<open>\<open>x > k\<close> for a \<open>float\<close> \<open>x\<close> and an \<open>int\<close> \<open>k\<close>.\<close>

fun float_gt :: "double \<Rightarrow> int \<Rightarrow> bool" where
  "float_gt (Finite m e) k \<longleftrightarrow> (if 0 \<le> e then k < m * 2 ^ nat e else k * 2 ^ nat (- e) < m)"
| "float_gt Infinity k \<longleftrightarrow> True"

text \<open>
  \<open>round(x, 1)\<close>: the exact value of \<open>x\<close> is rounded to one decimal place, ties to
  even, and the decimal is converted back to the nearest double.
\<close>

fun py_round1 :: "double \<Rightarrow> double" where
  "py_round1 (Finite m e) =
     (if 0 \<le> e then to_double (10 * m * 2 ^ nat e) 10
      else to_double (round_half_even (10 * m) (2 ^ nat (- e))) 10)"
| "py_round1 Infinity = Infinity"

text \<open>The rational number that a finite double stands for.\<close>

fun double_val :: "double \<Rightarrow> rat option" where
  "double_val (Finite m e) =
     Some (if 0 \<le> e then of_int (m * 2 ^ nat e) else of_int m / of_int (2 ^ nat (- e)))"
| "double_val Infinity = None"

section \<open>The language-model collaborator\<close>

text \<open>
  \<open>self.model.generate_content(prompt)\<close> followed by \<open>response.text\<close> either yields
  the response text (\<open>Inr\<close>) or raises an exception \<open>e\<close> (\<open>Inl\<close>, carrying
  \<open>str(e)\<close>). The model is an unknown function of its own state and the prompt, so
  two calls with one prompt may answer differently. The world threaded through the
  analysis holds the state of the model, the prompts sent so far and the lines
  printed so far.
\<close>

type_synonym 's model = "'s \<Rightarrow> ustring \<Rightarrow> (ustring + ustring) \<times> 's"

record 's world =
  model_state :: 's
  prompts :: "ustring list"
  printed :: "ustring list"

definition generate_content :: "'s model \<Rightarrow> ustring \<Rightarrow> 's world \<Rightarrow> (ustring + ustring) \<times> 's world" where
  "generate_content gen prompt w =
     (let (response, s') = gen (model_state w) prompt
      in (response, w\<lparr>model_state := s', prompts := prompts w @ [prompt]\<rparr>))"

definition print :: "ustring \<Rightarrow> 's world \<Rightarrow> 's world" where
  "print line w = w\<lparr>printed := printed w @ [line]\<rparr>"

section \<open>The sentiment classifier\<close>

definition sentiment_prompt :: "ustring \<Rightarrow> ustring" where
  "sentiment_prompt review =
     [10] @ ustr ''        Analyze the sentiment of this review and respond with ONLY one word: positive, negative, or neutral.''
     @ [10] @ ustr ''        ''
     @ [10] @ ustr ''        Review: '' @ [34] @ review @ [34]
     @ [10] @ ustr ''        ''
     @ [10] @ ustr ''        Response (one word only):''
     @ [10] @ ustr ''        ''"

text \<open>The \<open>if\<close>/\<open>elif\<close> chain on the normalised response.\<close>

definition valid_sentiment :: "ustring \<Rightarrow> ustring" where
  "valid_sentiment sentiment =
     (if sentiment \<in> set [ustr ''positive'', ustr ''negative'', ustr ''neutral'']
      then sentiment
      else if str_contains (ustr ''positive'') sentiment then ustr ''positive''
      else if str_contains (ustr ''negative'') sentiment then ustr ''negative''
      else ustr ''neutral'')"

text \<open>
  \<open>str.lower\<close> follows the case mappings of the Unicode database, which are not part
  of this program; the classifier takes it as the parameter \<open>str_lower\<close>.
\<close>

definition analyze_single_review_sentiment ::
    "(ustring \<Rightarrow> ustring) \<Rightarrow> 's model \<Rightarrow> ustring \<Rightarrow> 's world \<Rightarrow> ustring \<times> 's world" where
  "analyze_single_review_sentiment str_lower gen review w =
     (case generate_content gen (sentiment_prompt review) w of
        (Inr text, w') \<Rightarrow> (valid_sentiment (str_lower (strip text)), w')
      | (Inl e, w') \<Rightarrow>
          (ustr ''neutral'', print (ustr ''Error analyzing sentiment: '' @ e) w'))"

section \<open>The insight extractor\<close>

definition insights_prompt :: "ustring \<Rightarrow> ustring" where
  "insights_prompt reviews_text =
     [10] @ ustr ''        Analyze these travel reviews and provide 5-7 key insights about the destination/experience.''
     @ [10] @ ustr ''        Focus on:''
     @ [10] @ ustr ''        - Common positive aspects mentioned''
     @ [10] @ ustr ''        - Common complaints or issues''
     @ [10] @ ustr ''        - Recommendations that appear frequently''
     @ [10] @ ustr ''        - Notable patterns in visitor experiences''
     @ [10] @ ustr ''        ''
     @ [10] @ ustr ''        Reviews:''
     @ [10] @ ustr ''        '' @ reviews_text
     @ [10] @ ustr ''        ''
     @ [10] @ ustr ''        Provide insights as a list of clear, actionable points.''
     @ [10] @ ustr ''        ''"

text \<open>The three bullet markers \<open>\<bullet>\<close>, \<open>-\<close> and \<open>*\<close>, and the characters of \<open>lstrip\<close>.\<close>

definition starts_with_bullet :: "ustring \<Rightarrow> bool" where
  "starts_with_bullet line \<longleftrightarrow>
     startswith line [8226] \<or> startswith line [45] \<or> startswith line [42]"

text \<open>The loop over the lines of the response; \<open>insights\<close> is the list built so far.\<close>

fun parse_insight_lines :: "ustring list \<Rightarrow> ustring list \<Rightarrow> ustring list" where
  "parse_insight_lines insights [] = insights"
| "parse_insight_lines insights (l # lines) =
     (let line = strip l
      in if line \<noteq> [] \<and> starts_with_bullet line
         then (let insight = strip (lstrip_chars [8226, 45, 42, 32] line)
               in if insight \<noteq> [] then parse_insight_lines (insights @ [insight]) lines
                  else parse_insight_lines insights lines)
         else if line \<noteq> [] \<and> length (split_ws line) > 3
         then parse_insight_lines (insights @ [line]) lines
         else parse_insight_lines insights lines)"

definition get_overall_insights :: "'s model \<Rightarrow> ustring \<Rightarrow> 's world \<Rightarrow> ustring list \<times> 's world" where
  "get_overall_insights gen reviews_text w =
     (case generate_content gen (insights_prompt reviews_text) w of
        (Inr insights_text, w') \<Rightarrow>
          (take 7 (parse_insight_lines [] (str_split [10] insights_text)), w')
      | (Inl e, w') \<Rightarrow>
          ([ustr ''Unable to generate insights from reviews''],
           print (ustr ''Error getting insights: '' @ e) w'))"

text \<open>
  What one pass of the loop adds for a line: the insight, if the line is accepted.
\<close>

definition accepted_insight :: "ustring \<Rightarrow> ustring option" where
  "accepted_insight l =
     (let line = strip l
      in if line \<noteq> [] \<and> starts_with_bullet line
         then (let insight = strip (lstrip_chars [8226, 45, 42, 32] line)
               in if insight \<noteq> [] then Some insight else None)
         else if line \<noteq> [] \<and> length (split_ws line) > 3 then Some line
         else None)"

text \<open>
  The rule in the words of the specification, to compare with the code: a line that
  starts with a bullet marker is accepted with the marker and the whitespace after it
  removed; a line without a marker is accepted if it has more than three tokens; the
  accepted lines are kept in order, and the first seven returned.
\<close>

definition spec_accepted_insight :: "ustring \<Rightarrow> ustring option" where
  "spec_accepted_insight l =
     (let line = strip l
      in if starts_with_bullet line then Some (dropWhile is_space (tl line))
         else if length (split_ws line) > 3 then Some line
         else None)"

definition spec_extract_insights :: "ustring \<Rightarrow> ustring list" where
  "spec_extract_insights response =
     take 7 (List.map_filter spec_accepted_insight (str_split [10] response))"

section \<open>The aggregator\<close>

text \<open>
  A \<open>dict\<close> with string keys is an association list in insertion order; reading a
  missing key raises \<open>KeyError\<close>.
\<close>

definition dict_get :: "(ustring \<times> 'v) list \<Rightarrow> ustring \<Rightarrow> error + 'v" where
  "dict_get d k = (case map_of d k of None \<Rightarrow> Inl KeyError | Some v \<Rightarrow> Inr v)"

text \<open>\<open>(sentiment_dist[key] / total_reviews) * 100\<close>\<close>

definition percent_of :: "(ustring \<times> nat) list \<Rightarrow> ustring \<Rightarrow> nat \<Rightarrow> error + double" where
  "percent_of sentiment_dist key total_reviews =
     (case dict_get sentiment_dist key of
        Inl e \<Rightarrow> Inl e
      | Inr v \<Rightarrow> (case py_truediv v total_reviews of
                    Inl e \<Rightarrow> Inl e
                  | Inr q \<Rightarrow> Inr (py_mul q 100)))"

text \<open>The \<open>if\<close>/\<open>elif\<close> chain on the two percentages.\<close>

definition threshold_insight :: "double \<Rightarrow> double \<Rightarrow> ustring" where
  "threshold_insight positive_pct negative_pct =
     (if float_gt positive_pct 70
      then ustr ''Overwhelmingly positive reviews - visitors love this destination!''
      else if float_gt positive_pct 50
      then ustr ''Generally positive sentiment with most visitors having good experiences''
      else if float_gt negative_pct 50
      then ustr ''Concerning number of negative reviews - consider investigating common issues''
      else ustr ''Mixed reviews with varied visitor experiences'')"

definition generate_summary_insights :: "(ustring \<times> nat) list \<Rightarrow> nat \<Rightarrow> error + ustring list" where
  "generate_summary_insights sentiment_dist total_reviews =
     (if total_reviews = 0 then Inr []
      else
        (case percent_of sentiment_dist (ustr ''Positive'') total_reviews of
           Inl e \<Rightarrow> Inl e
         | Inr positive_pct \<Rightarrow>
        (case percent_of sentiment_dist (ustr ''Negative'') total_reviews of
           Inl e \<Rightarrow> Inl e
         | Inr negative_pct \<Rightarrow>
        (case dict_get sentiment_dist (ustr ''Positive'') of
           Inl e \<Rightarrow> Inl e
         | Inr pos \<Rightarrow>
        (case dict_get sentiment_dist (ustr ''Negative'') of
           Inl e \<Rightarrow> Inl e
         | Inr neg \<Rightarrow>
             Inr ([threshold_insight positive_pct negative_pct] @
                  (if pos > neg * 2
                   then [ustr ''Strong positive sentiment indicates high visitor satisfaction'']
                   else [])))))))"

text \<open>
  \<open>Counter(sentiments)\<close> read at the three labels: the dictionary
  \<open>sentiment_distribution\<close> of \<open>analyze_reviews\<close>.
\<close>

definition sentiment_distribution :: "ustring list \<Rightarrow> (ustring \<times> nat) list" where
  "sentiment_distribution sentiments =
     [(ustr ''Positive'', count_list sentiments (ustr ''positive'')),
      (ustr ''Neutral'', count_list sentiments (ustr ''neutral'')),
      (ustr ''Negative'', count_list sentiments (ustr ''negative''))]"

datatype number = IntNum nat | FloatNum double

text \<open>\<open>round((v/total_reviews)*100, 1) if total_reviews > 0 else 0\<close>\<close>

definition percentage :: "nat \<Rightarrow> nat \<Rightarrow> error + number" where
  "percentage v total_reviews =
     (if total_reviews > 0
      then (case py_truediv v total_reviews of
              Inl e \<Rightarrow> Inl e
            | Inr q \<Rightarrow> Inr (FloatNum (py_round1 (py_mul q 100))))
      else Inr (IntNum 0))"

text \<open>The dictionary comprehension over the items of the distribution.\<close>

fun sentiment_percentages :: "(ustring \<times> nat) list \<Rightarrow> nat \<Rightarrow> error + (ustring \<times> number) list" where
  "sentiment_percentages [] total_reviews = Inr []"
| "sentiment_percentages ((k, v) # items) total_reviews =
     (case percentage v total_reviews of
        Inl e \<Rightarrow> Inl e
      | Inr p \<Rightarrow> (case sentiment_percentages items total_reviews of
                    Inl e \<Rightarrow> Inl e
                  | Inr ps \<Rightarrow> Inr ((k, p) # ps)))"

text \<open>
  The rule insights in the words of the specification, to compare with the code:
  the percentages are those of the result, rounded to one decimal place, and the
  chain of thresholds is read on them.
\<close>

definition number_gt :: "number \<Rightarrow> int \<Rightarrow> bool" where
  "number_gt x k = (case x of IntNum n \<Rightarrow> k < int n | FloatNum d \<Rightarrow> float_gt d k)"

definition spec_rule_insights :: "(ustring \<times> nat) list \<Rightarrow> nat \<Rightarrow> error + ustring list" where
  "spec_rule_insights sentiment_dist total_reviews =
     (if total_reviews = 0 then Inr []
      else
        (case sentiment_percentages sentiment_dist total_reviews of
           Inl e \<Rightarrow> Inl e
         | Inr percentages \<Rightarrow>
        (case dict_get percentages (ustr ''Positive'') of
           Inl e \<Rightarrow> Inl e
         | Inr positive_pct \<Rightarrow>
        (case dict_get percentages (ustr ''Negative'') of
           Inl e \<Rightarrow> Inl e
         | Inr negative_pct \<Rightarrow>
        (case dict_get sentiment_dist (ustr ''Positive'') of
           Inl e \<Rightarrow> Inl e
         | Inr pos \<Rightarrow>
        (case dict_get sentiment_dist (ustr ''Negative'') of
           Inl e \<Rightarrow> Inl e
         | Inr neg \<Rightarrow>
             Inr ([if number_gt positive_pct 70
                   then ustr ''Overwhelmingly positive reviews - visitors love this destination!''
                   else if number_gt positive_pct 50
                   then ustr ''Generally positive sentiment with most visitors having good experiences''
                   else if number_gt negative_pct 50
                   then ustr ''Concerning number of negative reviews - consider investigating common issues''
                   else ustr ''Mixed reviews with varied visitor experiences''] @
                  (if pos > neg * 2
                   then [ustr ''Strong positive sentiment indicates high visitor satisfaction'']
                   else []))))))))"

section \<open>The analysis\<close>

text \<open>The values of the result dictionary.\<close>

datatype pyval =
    Num number
  | Str ustring
  | StrList "ustring list"
  | CountDict "(ustring \<times> nat) list"
  | NumDict "(ustring \<times> number) list"

text \<open>
  The loop that classifies the substantial reviews; \<open>sentiments\<close> is the list built
  so far.
\<close>

fun classify_reviews ::
    "(ustring \<Rightarrow> ustring) \<Rightarrow> 's model \<Rightarrow> ustring list \<Rightarrow> ustring list \<Rightarrow> 's world
      \<Rightarrow> ustring list \<times> 's world" where
  "classify_reviews str_lower gen sentiments [] w = (sentiments, w)"
| "classify_reviews str_lower gen sentiments (review # reviews) w =
     (if length (strip review) > 10
      then (let (sentiment, w') = analyze_single_review_sentiment str_lower gen review w
            in classify_reviews str_lower gen (sentiments @ [sentiment]) reviews w')
      else classify_reviews str_lower gen sentiments reviews w)"

definition analyze_reviews ::
    "(ustring \<Rightarrow> ustring) \<Rightarrow> 's model \<Rightarrow> ustring \<Rightarrow> 's world
      \<Rightarrow> (error + (ustring \<times> pyval) list) \<times> 's world" where
  "analyze_reviews str_lower gen reviews_text w =
     (let reviews = split_reviews reviews_text in
      if reviews = [] then (Inr [(ustr ''error'', Str (ustr ''No valid reviews found''))], w)
      else
        let (sentiments, w1) = classify_reviews str_lower gen [] reviews w;
            (overall_insights, w2) = get_overall_insights gen reviews_text w1;
            total_reviews = length sentiments;
            distribution = sentiment_distribution sentiments
        in case generate_summary_insights distribution total_reviews of
             Inl e \<Rightarrow> (Inl e, w2)
           | Inr summary_insights \<Rightarrow>
               (case sentiment_percentages distribution total_reviews of
                  Inl e \<Rightarrow> (Inl e, w2)
                | Inr percentages \<Rightarrow>
                    (Inr [(ustr ''total_reviews'', Num (IntNum total_reviews)),
                          (ustr ''sentiment_distribution'', CountDict distribution),
                          (ustr ''insights'', StrList (overall_insights @ summary_insights)),
                          (ustr ''sentiment_percentages'', NumDict percentages)],
                     w2)))"

section \<open>Where a separator occurs\<close>

text \<open>
  \<open>occurs m t\<close>: the matcher \<open>m\<close> matches at some position of \<open>t\<close>. The two
  predicates below say the same of the two patterns without reference to a matcher: a
  decimal digit directly followed by a period, and the six letters of \<open>Review\<close> in
  either case, anywhere in the text.
\<close>

fun occurs :: "(ustring \<Rightarrow> nat option) \<Rightarrow> ustring \<Rightarrow> bool" where
  "occurs m [] \<longleftrightarrow> False"
| "occurs m (c # cs) \<longleftrightarrow> m (c # cs) \<noteq> None \<or> occurs m cs"

definition numbered_marker_in :: "ustring \<Rightarrow> bool" where
  "numbered_marker_in t \<longleftrightarrow> (\<exists>pre d post. t = pre @ d # 46 # post \<and> is_decimal d)"

definition review_marker_in :: "ustring \<Rightarrow> bool" where
  "review_marker_in t \<longleftrightarrow>
     (\<exists>pre w post. t = pre @ w @ post \<and> list_all2 ci_match (ustr ''review'') w)"

section \<open>Sample collaborators\<close>

text \<open>
  \<open>str.lower\<close> on ASCII text, and a model that answers from a script: its state is
  the list of the outcomes still to come, and it fails once the script is used up.
\<close>

definition ascii_lower :: "ustring \<Rightarrow> ustring" where
  "ascii_lower s = map (\<lambda>c. if 65 \<le> c \<and> c \<le> 90 then c + 32 else c) s"

definition scripted_model :: "(ustring + ustring) list model" where
  "scripted_model s prompt =
     (case s of [] \<Rightarrow> (Inl (ustr ''no response''), []) | r # rs \<Rightarrow> (r, rs))"

definition start_world :: "'s \<Rightarrow> 's world" where
  "start_world s = \<lparr>model_state = s, prompts = [], printed = []\<rparr>"

section \<open>Properties of the segmenter\<close>

lemmas eval_strings =
  ustr_def startswith_def strip_def is_space_def is_decimal_def nd_ranges_def ci_match_def
  match_literal_def match_numbered_def match_review_def str_split_def nonempty_stripped_def
  Let_def

lemma split_at_nonempty: "split_at m cur t \<noteq> []"
  by (induction m cur t rule: split_at.induct) (auto split: option.splits)

lemma split_at_length: "1 < length (split_at m cur t) \<longleftrightarrow> occurs m t"
proof (induction m cur t rule: split_at.induct)
  case (1 m cur)
  then show ?case by simp
next
  case (2 m cur c cs)
  show ?case
  proof (cases "m (c # cs)")
    case None
    with 2 show ?thesis by simp
  next
    case (Some n)
    have "split_at m [] (drop (n - 1) cs) \<noteq> []" by (rule split_at_nonempty)
    then have "0 < length (split_at m [] (drop (n - 1) cs))" by simp
    with Some show ?thesis by simp
  qed
qed

lemma split_at_pieces: "p \<in> set (split_at m cur t) \<Longrightarrow> set p \<subseteq> set cur \<union> set t"
proof (induction m cur t arbitrary: p rule: split_at.induct)
  case (1 m cur)
  then show ?case by simp
next
  case (2 m cur c cs)
  show ?case
  proof (cases "m (c # cs)")
    case None
    with "2.prems" have "p \<in> set (split_at m (cur @ [c]) cs)" by simp
    from "2.IH"(1)[OF None this] show ?thesis by auto
  next
    case (Some n)
    with "2.prems" have "p = cur \<or> p \<in> set (split_at m [] (drop (n - 1) cs))" by simp
    then show ?thesis
    proof
      assume "p = cur" then show ?thesis by auto
    next
      assume "p \<in> set (split_at m [] (drop (n - 1) cs))"
      from "2.IH"(2)[OF Some this] have "set p \<subseteq> set (drop (n - 1) cs)" by simp
      moreover have "set (drop (n - 1) cs) \<subseteq> set cs" by (rule set_drop_subset)
      ultimately show ?thesis by auto
    qed
  qed
qed

lemma all_dropWhile: "(\<forall>x\<in>set (dropWhile P s). P x) \<longleftrightarrow> (\<forall>x\<in>set s. P x)"
  by (induction s) auto

lemma strip_empty_iff: "strip s = [] \<longleftrightarrow> (\<forall>c\<in>set s. is_space c)"
  by (simp add: strip_def all_dropWhile)

lemma nonempty_stripped_blank:
  "\<forall>p\<in>set ps. strip p = [] \<Longrightarrow> nonempty_stripped ps = []"
  by (simp add: nonempty_stripped_def filter_empty_conv)

lemma split_at_blank:
  assumes "strip t = []"
  shows "nonempty_stripped (split_at m [] t) = []"
proof (rule nonempty_stripped_blank, rule ballI)
  fix p assume "p \<in> set (split_at m [] t)"
  then have "set p \<subseteq> set t" using split_at_pieces by fastforce
  with assms show "strip p = []" by (auto simp: strip_empty_iff)
qed

lemma split_reviews_blank:
  assumes "strip t = []"
  shows "split_reviews t = []"
proof -
  have a: "\<And>m. nonempty_stripped (split_at m [] t) = []"
    using assms by (rule split_at_blank)
  show ?thesis
    unfolding split_reviews_def Let_def str_split_def a using assms by simp
qed

lemma split_reviews_commit:
  "split_reviews t =
     (if occurs (match_literal [10, 10]) t then nonempty_stripped (str_split [10, 10] t)
      else if occurs match_numbered t then nonempty_stripped (split_at match_numbered [] t)
      else if occurs match_review t then nonempty_stripped (split_at match_review [] t)
      else if strip t \<noteq> [] then [strip t] else [])"
  unfolding split_reviews_def Let_def str_split_def split_at_length by (rule refl)

lemma occurs_iff: "occurs m t \<longleftrightarrow> (\<exists>pre suf. t = pre @ suf \<and> suf \<noteq> [] \<and> m suf \<noteq> None)"
proof (induction t)
  case Nil
  then show ?case by simp
next
  case (Cons c cs)
  show ?case
  proof
    assume "occurs m (c # cs)"
    then consider "m (c # cs) \<noteq> None" | "occurs m cs" by auto
    then show "\<exists>pre suf. c # cs = pre @ suf \<and> suf \<noteq> [] \<and> m suf \<noteq> None"
    proof cases
      case 1
      then have "c # cs = [] @ (c # cs) \<and> c # cs \<noteq> [] \<and> m (c # cs) \<noteq> None" by simp
      then show ?thesis by blast
    next
      case 2
      with Cons obtain pre suf where "cs = pre @ suf" "suf \<noteq> []" "m suf \<noteq> None" by blast
      then have "c # cs = (c # pre) @ suf \<and> suf \<noteq> [] \<and> m suf \<noteq> None" by simp
      then show ?thesis by blast
    qed
  next
    assume "\<exists>pre suf. c # cs = pre @ suf \<and> suf \<noteq> [] \<and> m suf \<noteq> None"
    then obtain pre suf where h: "c # cs = pre @ suf" "suf \<noteq> []" "m suf \<noteq> None" by blast
    show "occurs m (c # cs)"
    proof (cases pre)
      case Nil
      with h have "suf = c # cs" by simp
      with h show ?thesis by simp
    next
      case (Cons a pre')
      with h have "cs = pre' @ suf" by simp
      with h Cons.IH have "occurs m cs" by blast
      then show ?thesis by simp
    qed
  qed
qed

lemma startswith_prefix: "startswith t p \<longleftrightarrow> prefix p t"
  by (metis startswith_def prefix_def append_eq_conv_conj append_take_drop_id)

lemma occurs_literal: "sep \<noteq> [] \<Longrightarrow> occurs (match_literal sep) t \<longleftrightarrow> sublist sep t"
proof (induction t)
  case Nil
  then show ?case by simp
next
  case (Cons c cs)
  then obtain x xs where sep: "sep = x # xs" by (cases sep) auto
  have "match_literal sep (c # cs) \<noteq> None \<longleftrightarrow> prefix sep (c # cs)"
    by (simp add: match_literal_def startswith_prefix)
  moreover have "sublist sep (c # cs) \<longleftrightarrow> prefix sep (c # cs) \<or> sublist sep cs"
    unfolding sep by (rule sublist_Cons_right)
  ultimately show ?case using Cons by simp
qed

lemma not_decimal_dot: "\<not> is_decimal 46"
  by (simp add: is_decimal_def nd_ranges_def)

lemma match_numbered_here: "is_decimal d \<Longrightarrow> match_numbered (d # 46 # post) \<noteq> None"
  by (simp add: match_numbered_def Let_def startswith_def not_decimal_dot)

lemma match_numbered_shape:
  assumes "match_numbered suf \<noteq> None"
  shows "\<exists>ds d r. suf = ds @ d # 46 # r \<and> is_decimal d"
proof -
  let ?ds = "takeWhile is_decimal suf" and ?r = "dropWhile is_decimal suf"
  from assms have ds: "?ds \<noteq> []" and r: "startswith ?r [46]"
    by (auto simp: match_numbered_def Let_def split: if_splits)
  from r obtain r' where r': "?r = 46 # r'"
    by (cases ?r) (auto simp: startswith_def)
  from ds have "last ?ds \<in> set ?ds" by simp
  then have dec: "is_decimal (last ?ds)" by (rule set_takeWhileD[THEN conjunct2])
  have "suf = ?ds @ ?r" by simp
  also have "\<dots> = (butlast ?ds @ [last ?ds]) @ 46 # r'" using ds r' by simp
  finally have "suf = butlast ?ds @ last ?ds # 46 # r'" by simp
  with dec show ?thesis by blast
qed

lemma occurs_numbered: "occurs match_numbered t \<longleftrightarrow> numbered_marker_in t"
proof
  assume "occurs match_numbered t"
  then obtain pre suf where t: "t = pre @ suf" and m: "match_numbered suf \<noteq> None"
    by (auto simp: occurs_iff)
  from match_numbered_shape[OF m] obtain ds d r where "suf = ds @ d # 46 # r" "is_decimal d"
    by blast
  with t have "t = (pre @ ds) @ d # 46 # r \<and> is_decimal d" by simp
  then show "numbered_marker_in t" unfolding numbered_marker_in_def by blast
next
  assume "numbered_marker_in t"
  then obtain pre d post where t: "t = pre @ d # 46 # post" and d: "is_decimal d"
    unfolding numbered_marker_in_def by blast
  from d have "match_numbered (d # 46 # post) \<noteq> None" by (rule match_numbered_here)
  with t have "t = pre @ (d # 46 # post) \<and> d # 46 # post \<noteq> [] \<and> match_numbered (d # 46 # post) \<noteq> None"
    by simp
  then show "occurs match_numbered t" unfolding occurs_iff by blast
qed

lemma occurs_review: "occurs match_review t \<longleftrightarrow> review_marker_in t"
proof
  assume "occurs match_review t"
  then obtain pre suf where t: "t = pre @ suf" and m: "match_review suf \<noteq> None"
    by (auto simp: occurs_iff)
  from m have "list_all2 ci_match (ustr ''review'') (take 6 suf)"
    by (auto simp: match_review_def split: if_splits)
  moreover from t have "t = pre @ take 6 suf @ drop 6 suf" by simp
  ultimately show "review_marker_in t" unfolding review_marker_in_def by blast
next
  assume "review_marker_in t"
  then obtain pre w post where t: "t = pre @ w @ post"
      and w: "list_all2 ci_match (ustr ''review'') w"
    unfolding review_marker_in_def by blast
  from w have len: "length w = 6" by (auto simp: ustr_def dest: list_all2_lengthD)
  then have "match_review (w @ post) \<noteq> None" using w
    by (simp add: match_review_def Let_def)
  moreover from len have "w @ post \<noteq> []" by auto
  ultimately show "occurs match_review t" using t unfolding occurs_iff by blast
qed

lemma split_reviews_by_occurrence:
  "split_reviews t =
     (if sublist [10, 10] t then nonempty_stripped (str_split [10, 10] t)
      else if numbered_marker_in t then nonempty_stripped (split_at match_numbered [] t)
      else if review_marker_in t then nonempty_stripped (split_at match_review [] t)
      else if strip t \<noteq> [] then [strip t] else [])"
  using split_reviews_commit[of t] by (simp add: occurs_literal occurs_numbered occurs_review)

text \<open>
  C1 (as the code has it). The segmenter commits to the first strategy whose separator
  occurs in the text, that is, whose split has at least two pieces, empty ones
  counted, and returns the trimmed non-empty pieces of that split, however few they
  are: the blank-line split if the text contains two consecutive line breaks; else
  the numbered split if a decimal digit is directly followed by a period; else the
  split at \<open>Review\<close>; else the whole trimmed text, or nothing if that is empty.
\<close>

theorem segment_commits_where_separator_occurs:
  "split_reviews t =
     (if sublist [10, 10] t then nonempty_stripped (str_split [10, 10] t)
      else if numbered_marker_in t then nonempty_stripped (split_at match_numbered [] t)
      else if review_marker_in t then nonempty_stripped (split_at match_review [] t)
      else if strip t \<noteq> [] then [strip t] else [])"
  by (rule split_reviews_by_occurrence)

theorem segment_commits_where_separator_occurs_witness:
  "sublist [10, 10] (ustr ''1. alpha'' @ [10, 10]) \<and>
   split_reviews (ustr ''1. alpha'' @ [10, 10]) = [ustr ''1. alpha'']"
proof -
  have h: "sublist [10, 10] (ustr ''1. alpha'' @ [10, 10])"
    by (simp add: occurs_literal[symmetric] eval_strings)
  from h segment_commits_where_separator_occurs[of "ustr ''1. alpha'' @ [10, 10]"]
  show ?thesis by (simp add: eval_strings)
qed

text \<open>
  C1 as stated fails: on \<open>"1. alpha\n\n"\<close> the blank-line split has one non-empty
  piece only, and yet the segmenter commits to it and returns \<open>["1. alpha"]\<close>, not
  \<open>["alpha"]\<close>.
\<close>

theorem segment_commit_counterexample:
  "length (nonempty_stripped (str_split [10, 10] (ustr ''1. alpha'' @ [10, 10]))) < 2 \<and>
   split_reviews (ustr ''1. alpha'' @ [10, 10]) = [ustr ''1. alpha''] \<and>
   split_reviews (ustr ''1. alpha'' @ [10, 10]) \<noteq> [ustr ''alpha'']"
  by (simp add: split_reviews_def eval_strings)

lemma split_at_cover:
  "\<forall>c cs n. m (c # cs) = Some n \<longrightarrow> P c \<and> (\<forall>x\<in>set (take (n - 1) cs). P x) \<Longrightarrow>
   \<forall>p\<in>set (split_at m cur t). \<forall>x\<in>set p. P x \<Longrightarrow>
   \<forall>x\<in>set cur \<union> set t. P x"
proof (induction m cur t rule: split_at.induct)
  case (1 m cur)
  then show ?case by simp
next
  case (2 m cur c cs)
  show ?case
  proof (cases "m (c # cs)")
    case None
    with "2.prems"(2) have "\<forall>p\<in>set (split_at m (cur @ [c]) cs). \<forall>x\<in>set p. P x" by simp
    from "2.IH"(1)[OF None "2.prems"(1) this] show ?thesis by auto
  next
    case (Some n)
    with "2.prems"(2) have cur: "\<forall>x\<in>set cur. P x"
      and rest: "\<forall>p\<in>set (split_at m [] (drop (n - 1) cs)). \<forall>x\<in>set p. P x" by simp_all
    from "2.IH"(2)[OF Some "2.prems"(1) rest] have d: "\<forall>x\<in>set (drop (n - 1) cs). P x" by simp
    from "2.prems"(1) Some have c: "P c" and t: "\<forall>x\<in>set (take (n - 1) cs). P x" by blast+
    have "set (take (n - 1) cs @ drop (n - 1) cs) = set (take (n - 1) cs) \<union> set (drop (n - 1) cs)"
      by (rule set_append)
    then have "set cs = set (take (n - 1) cs) \<union> set (drop (n - 1) cs)"
      by (simp only: append_take_drop_id)
    with cur c t d show ?thesis by auto
  qed
qed

lemma nonempty_stripped_empty_iff:
  "nonempty_stripped ps = [] \<longleftrightarrow> (\<forall>p\<in>set ps. strip p = [])"
  by (simp add: nonempty_stripped_def filter_empty_conv)

lemma blank_line_pieces_blank_iff:
  "(\<forall>p\<in>set (str_split [10, 10] t). strip p = []) \<longleftrightarrow> strip t = []"
proof
  assume a: "\<forall>p\<in>set (str_split [10, 10] t). strip p = []"
  have sep: "\<forall>c cs n. match_literal [10, 10] (c # cs) = Some n \<longrightarrow>
      is_space c \<and> (\<forall>x\<in>set (take (n - 1) cs). is_space x)"
  proof (intro allI impI)
    fix c cs n assume h: "match_literal [10, 10] (c # cs) = Some n"
    then have n: "n = 2" by (simp add: match_literal_def split: if_splits)
    from h have "prefix [10, 10] (c # cs)"
      by (simp add: match_literal_def startswith_prefix split: if_splits)
    then have c: "c = 10" and "prefix [10] cs" by simp_all
    then obtain rest where "cs = 10 # rest" by (cases cs) simp_all
    then have "take (n - 1) cs = [10]" unfolding n by simp
    with c show "is_space c \<and> (\<forall>x\<in>set (take (n - 1) cs). is_space x)"
      by (simp add: is_space_def)
  qed
  from a have "\<forall>p\<in>set (split_at (match_literal [10, 10]) [] t). \<forall>x\<in>set p. is_space x"
    by (simp add: str_split_def strip_empty_iff)
  from split_at_cover[OF sep this] show "strip t = []" by (simp add: strip_empty_iff)
next
  assume "strip t = []"
  then have "nonempty_stripped (split_at (match_literal [10, 10]) [] t) = []" by (rule split_at_blank)
  then show "\<forall>p\<in>set (str_split [10, 10] t). strip p = []"
    by (simp add: str_split_def nonempty_stripped_empty_iff)
qed

lemma split_at_blank_pieces: "strip t = [] \<Longrightarrow> \<forall>p\<in>set (split_at m [] t). strip p = []"
  using split_at_blank[of t m] by (simp add: nonempty_stripped_empty_iff)

lemma split_reviews_empty_iff:
  "split_reviews t = [] \<longleftrightarrow>
     strip t = [] \<or>
     (\<not> sublist [10, 10] t \<and> numbered_marker_in t \<and>
        (\<forall>p\<in>set (split_at match_numbered [] t). strip p = [])) \<or>
     (\<not> sublist [10, 10] t \<and> \<not> numbered_marker_in t \<and> review_marker_in t \<and>
        (\<forall>p\<in>set (split_at match_review [] t). strip p = []))"
proof (cases "sublist [10, 10] t")
  case True
  have "split_reviews t = nonempty_stripped (str_split [10, 10] t)"
    unfolding split_reviews_by_occurrence[of t] using True by (simp only: if_True)
  then have e: "split_reviews t = [] \<longleftrightarrow> strip t = []"
    by (simp only: nonempty_stripped_empty_iff blank_line_pieces_blank_iff)
  from e True show ?thesis by blast
next
  case nb: False
  show ?thesis
  proof (cases "numbered_marker_in t")
    case True
    have "split_reviews t = nonempty_stripped (split_at match_numbered [] t)"
      unfolding split_reviews_by_occurrence[of t] using nb True by (simp only: if_True if_False)
    then have e: "split_reviews t = [] \<longleftrightarrow> (\<forall>p\<in>set (split_at match_numbered [] t). strip p = [])"
      by (simp only: nonempty_stripped_empty_iff)
    have b: "strip t = [] \<longrightarrow> (\<forall>p\<in>set (split_at match_numbered [] t). strip p = [])"
      using split_at_blank_pieces[of t match_numbered] by blast
    from e b nb True show ?thesis by blast
  next
    case nn: False
    show ?thesis
    proof (cases "review_marker_in t")
      case True
      have "split_reviews t = nonempty_stripped (split_at match_review [] t)"
        unfolding split_reviews_by_occurrence[of t] using nb nn True by (simp only: if_True if_False)
      then have e: "split_reviews t = [] \<longleftrightarrow> (\<forall>p\<in>set (split_at match_review [] t). strip p = [])"
        by (simp only: nonempty_stripped_empty_iff)
      have b: "strip t = [] \<longrightarrow> (\<forall>p\<in>set (split_at match_review [] t). strip p = [])"
        using split_at_blank_pieces[of t match_review] by blast
      from e b nb nn True show ?thesis by blast
    next
      case False
      have "split_reviews t = (if strip t \<noteq> [] then [strip t] else [])"
        unfolding split_reviews_by_occurrence[of t] using nb nn False by (simp only: if_False)
      then have e: "split_reviews t = [] \<longleftrightarrow> strip t = []" by simp
      from e nb nn False show ?thesis by blast
    qed
  qed
qed

text \<open>
  C2 (as the code has it). The segmenter returns no segment for every blank input, and
  for an input that is not blank exactly when the input has no blank line, a numbered
  marker occurs in it (or, failing that, the marker \<open>Review\<close>) and every piece
  between the markers is blank. So on every input with a blank line, and on every
  input with no separator at all, the result is empty if and only if the trimmed input
  is empty; and an input that is not blank and has no separator gives exactly one
  segment, its trimmed form.
\<close>

theorem segment_empty_iff:
  "(split_reviews t = [] \<longleftrightarrow>
      strip t = [] \<or>
      (\<not> sublist [10, 10] t \<and> numbered_marker_in t \<and>
         (\<forall>p\<in>set (split_at match_numbered [] t). strip p = [])) \<or>
      (\<not> sublist [10, 10] t \<and> \<not> numbered_marker_in t \<and> review_marker_in t \<and>
         (\<forall>p\<in>set (split_at match_review [] t). strip p = []))) \<and>
   (strip t = [] \<longrightarrow> split_reviews t = []) \<and>
   (sublist [10, 10] t \<or> (\<not> numbered_marker_in t \<and> \<not> review_marker_in t) \<longrightarrow>
      (split_reviews t = [] \<longleftrightarrow> strip t = [])) \<and>
   (strip t \<noteq> [] \<and> \<not> sublist [10, 10] t \<and> \<not> numbered_marker_in t \<and> \<not> review_marker_in t
      \<longrightarrow> split_reviews t = [strip t])"
proof (intro conjI)
  show "split_reviews t = [] \<longleftrightarrow>
      strip t = [] \<or>
      (\<not> sublist [10, 10] t \<and> numbered_marker_in t \<and>
         (\<forall>p\<in>set (split_at match_numbered [] t). strip p = [])) \<or>
      (\<not> sublist [10, 10] t \<and> \<not> numbered_marker_in t \<and> review_marker_in t \<and>
         (\<forall>p\<in>set (split_at match_review [] t). strip p = []))"
    by (rule split_reviews_empty_iff)
  show "strip t = [] \<longrightarrow> split_reviews t = []"
    using split_reviews_blank[of t] by blast
  show "sublist [10, 10] t \<or> (\<not> numbered_marker_in t \<and> \<not> review_marker_in t) \<longrightarrow>
      (split_reviews t = [] \<longleftrightarrow> strip t = [])"
    using split_reviews_empty_iff[of t] by blast
  show "strip t \<noteq> [] \<and> \<not> sublist [10, 10] t \<and> \<not> numbered_marker_in t \<and> \<not> review_marker_in t
      \<longrightarrow> split_reviews t = [strip t]"
    using split_reviews_by_occurrence[of t] by simp
qed

theorem segment_empty_iff_witness:
  "strip [32, 10, 9] = [] \<and> split_reviews [32, 10, 9] = [] \<and>
   \<not> sublist [10, 10] (ustr ''1.'') \<and> numbered_marker_in (ustr ''1.'') \<and>
   split_at match_numbered [] (ustr ''1.'') = [[], []] \<and> split_reviews (ustr ''1.'') = [] \<and>
   sublist [10, 10] (ustr ''good'' @ [10, 10]) \<and> strip (ustr ''good'' @ [10, 10]) \<noteq> [] \<and>
   split_reviews (ustr ''good'' @ [10, 10]) \<noteq> [] \<and>
   strip (ustr '' great place '') \<noteq> [] \<and> \<not> sublist [10, 10] (ustr '' great place '') \<and>
   \<not> numbered_marker_in (ustr '' great place '') \<and> \<not> review_marker_in (ustr '' great place '') \<and>
   split_reviews (ustr '' great place '') = [ustr ''great place'']"
proof -
  have a: "strip [32, 10, 9] = []" by (simp add: eval_strings)
  from a segment_empty_iff[of "[32, 10, 9]"] have a': "split_reviews [32, 10, 9] = []" by blast
  have n1: "\<not> sublist [10, 10] (ustr ''1.'')"
    by (simp add: occurs_literal[symmetric] eval_strings)
  have n2: "numbered_marker_in (ustr ''1.'')"
    by (simp add: occurs_numbered[symmetric] eval_strings)
  have n3: "split_at match_numbered [] (ustr ''1.'') = [[], []]" by (simp add: eval_strings)
  have n4: "\<forall>p\<in>set (split_at match_numbered [] (ustr ''1.'')). strip p = []"
    unfolding n3 by (simp add: strip_def)
  from n1 n2 n4 segment_empty_iff[of "ustr ''1.''"] have n5: "split_reviews (ustr ''1.'') = []"
    by blast
  have g1: "sublist [10, 10] (ustr ''good'' @ [10, 10])"
    by (simp add: occurs_literal[symmetric] eval_strings)
  have g2: "strip (ustr ''good'' @ [10, 10]) \<noteq> []" by (simp add: eval_strings)
  from g1 g2 segment_empty_iff[of "ustr ''good'' @ [10, 10]"]
  have g3: "split_reviews (ustr ''good'' @ [10, 10]) \<noteq> []" by blast
  have b: "strip (ustr '' great place '') = ustr ''great place''" by (simp add: eval_strings)
  have b': "strip (ustr '' great place '') \<noteq> []" unfolding b by (simp add: ustr_def)
  have c: "\<not> sublist [10, 10] (ustr '' great place '')"
    by (simp add: occurs_literal[symmetric] eval_strings)
  have d: "\<not> numbered_marker_in (ustr '' great place '')"
    by (simp add: occurs_numbered[symmetric] eval_strings)
  have e: "\<not> review_marker_in (ustr '' great place '')"
    by (simp add: occurs_review[symmetric] eval_strings)
  from b' c d e segment_empty_iff[of "ustr '' great place ''"]
  have f: "split_reviews (ustr '' great place '') = [ustr ''great place'']"
    unfolding b by blast
  from a a' n1 n2 n3 n5 g1 g2 g3 b' c d e f show ?thesis by (intro conjI)
qed

text \<open>
  C2 as stated fails: the trimmed form of \<open>"1."\<close> is not empty, and the segmenter
  returns no segment for it.
\<close>

theorem segment_empty_counterexample:
  "strip (ustr ''1.'') \<noteq> [] \<and> split_reviews (ustr ''1.'') = []"
  by (simp add: split_reviews_def eval_strings)







section \<open>Properties of the classifier\<close>

lemma str_contains_sublist: "str_contains sub s \<longleftrightarrow> sublist sub s"
  by (induction s) (simp_all add: sublist_Cons_right startswith_prefix)

lemma labels_distinct:
  "ustr ''positive'' \<noteq> ustr ''negative''" "ustr ''positive'' \<noteq> ustr ''neutral''"
  "ustr ''negative'' \<noteq> ustr ''neutral''"
  by (simp_all add: ustr_def)

lemma generate_content_fst:
  "fst (generate_content gen p w) = fst (gen (model_state w) p)"
  by (simp add: generate_content_def split: prod.splits)

lemma generate_content_prompts:
  "prompts (snd (generate_content gen p w)) = prompts w @ [p]"
  by (simp add: generate_content_def split: prod.splits)

lemma valid_sentiment_label:
  "valid_sentiment s \<in> {ustr ''positive'', ustr ''negative'', ustr ''neutral''}"
  by (simp add: valid_sentiment_def)

lemma sentiment_label:
  "fst (analyze_single_review_sentiment str_lower gen review w) \<in>
     {ustr ''positive'', ustr ''negative'', ustr ''neutral''}"
proof (cases "generate_content gen (sentiment_prompt review) w")
  case (Pair out w')
  then show ?thesis
    using valid_sentiment_label
    by (cases out) (simp_all add: analyze_single_review_sentiment_def)
qed

lemma sentiment_prompts:
  "prompts (snd (analyze_single_review_sentiment str_lower gen review w)) =
     prompts w @ [sentiment_prompt review]"
proof (cases "generate_content gen (sentiment_prompt review) w")
  case (Pair out w')
  with generate_content_prompts[of gen "sentiment_prompt review" w]
  have "prompts w' = prompts w @ [sentiment_prompt review]" by simp
  with Pair show ?thesis
    by (cases out) (simp_all add: analyze_single_review_sentiment_def print_def)
qed

lemma sentiment_value:
  "fst (analyze_single_review_sentiment str_lower gen review w) =
     (case fst (gen (model_state w) (sentiment_prompt review)) of
        Inl e \<Rightarrow> ustr ''neutral''
      | Inr text \<Rightarrow> valid_sentiment (str_lower (strip text)))"
proof (cases "generate_content gen (sentiment_prompt review) w")
  case (Pair out w')
  with generate_content_fst[of gen "sentiment_prompt review" w]
  have "fst (gen (model_state w) (sentiment_prompt review)) = out" by simp
  with Pair show ?thesis
    by (cases out) (simp_all add: analyze_single_review_sentiment_def)
qed

lemma valid_sentiment_chain:
  "valid_sentiment s =
     (if s = ustr ''positive'' \<or> s = ustr ''negative'' \<or> s = ustr ''neutral'' then s
      else if sublist (ustr ''positive'') s then ustr ''positive''
      else if sublist (ustr ''negative'') s then ustr ''negative''
      else ustr ''neutral'')"
  by (simp add: valid_sentiment_def str_contains_sublist)

text \<open>
  C4. The label of a review is decided by the chain on the response, trimmed and put
  in lower case: the response itself if it is one of the three labels; else
  \<open>positive\<close> if it contains that word; else \<open>negative\<close> if it contains that word;
  else \<open>neutral\<close>. When the call of the model fails the label is \<open>neutral\<close>. In
  every case the result is one of the three labels.
\<close>

theorem classify_chain:
  "fst (analyze_single_review_sentiment str_lower gen review w) =
     (case fst (gen (model_state w) (sentiment_prompt review)) of
        Inl e \<Rightarrow> ustr ''neutral''
      | Inr text \<Rightarrow>
          (let s = str_lower (strip text)
           in if s = ustr ''positive'' \<or> s = ustr ''negative'' \<or> s = ustr ''neutral'' then s
              else if sublist (ustr ''positive'') s then ustr ''positive''
              else if sublist (ustr ''negative'') s then ustr ''negative''
              else ustr ''neutral'')) \<and>
   fst (analyze_single_review_sentiment str_lower gen review w) \<in>
     {ustr ''positive'', ustr ''negative'', ustr ''neutral''}"
proof
  show "fst (analyze_single_review_sentiment str_lower gen review w) =
     (case fst (gen (model_state w) (sentiment_prompt review)) of
        Inl e \<Rightarrow> ustr ''neutral''
      | Inr text \<Rightarrow>
          (let s = str_lower (strip text)
           in if s = ustr ''positive'' \<or> s = ustr ''negative'' \<or> s = ustr ''neutral'' then s
              else if sublist (ustr ''positive'') s then ustr ''positive''
              else if sublist (ustr ''negative'') s then ustr ''negative''
              else ustr ''neutral''))"
    unfolding sentiment_value
    by (cases "fst (gen (model_state w) (sentiment_prompt review))")
       (simp_all only: sum.case valid_sentiment_chain Let_def)
  show "fst (analyze_single_review_sentiment str_lower gen review w) \<in>
     {ustr ''positive'', ustr ''negative'', ustr ''neutral''}"
    by (rule sentiment_label)
qed

theorem classify_chain_witness:
  "fst (analyze_single_review_sentiment ascii_lower scripted_model (ustr ''Lovely hotel by the sea'')
         (start_world [Inr (ustr '' Mostly Positive, not negative. '')])) = ustr ''positive'' \<and>
   fst (analyze_single_review_sentiment ascii_lower scripted_model (ustr ''Lovely hotel by the sea'')
         (start_world [Inr (ustr ''NEGATIVE'')])) = ustr ''negative'' \<and>
   fst (analyze_single_review_sentiment ascii_lower scripted_model (ustr ''Lovely hotel by the sea'')
         (start_world [Inr (ustr ''I cannot tell'')])) = ustr ''neutral'' \<and>
   fst (analyze_single_review_sentiment ascii_lower scripted_model (ustr ''Lovely hotel by the sea'')
         (start_world [Inl (ustr ''timeout'')])) = ustr ''neutral''"
  using
    classify_chain[of ascii_lower scripted_model "ustr ''Lovely hotel by the sea''"
      "start_world [Inr (ustr '' Mostly Positive, not negative. '')]"]
    classify_chain[of ascii_lower scripted_model "ustr ''Lovely hotel by the sea''"
      "start_world [Inr (ustr ''NEGATIVE'')]"]
    classify_chain[of ascii_lower scripted_model "ustr ''Lovely hotel by the sea''"
      "start_world [Inr (ustr ''I cannot tell'')]"]
    classify_chain[of ascii_lower scripted_model "ustr ''Lovely hotel by the sea''"
      "start_world [Inl (ustr ''timeout'')]"]
  by (simp add: scripted_model_def start_world_def ascii_lower_def str_contains_sublist[symmetric]
      eval_strings)

section \<open>Properties of the insight extractor\<close>

lemma parse_insight_lines_map_filter:
  "parse_insight_lines acc ls = acc @ List.map_filter accepted_insight ls"
  by (induction ls arbitrary: acc) (simp_all add: accepted_insight_def Let_def)

lemma overall_insights_prompts:
  "prompts (snd (get_overall_insights gen t w)) = prompts w @ [insights_prompt t]"
proof (cases "generate_content gen (insights_prompt t) w")
  case (Pair out w')
  with generate_content_prompts[of gen "insights_prompt t" w]
  have "prompts w' = prompts w @ [insights_prompt t]" by simp
  with Pair show ?thesis
    by (cases out) (simp_all add: get_overall_insights_def print_def)
qed

lemma overall_insights_value:
  "fst (get_overall_insights gen t w) =
     (case fst (gen (model_state w) (insights_prompt t)) of
        Inl e \<Rightarrow> [ustr ''Unable to generate insights from reviews'']
      | Inr response \<Rightarrow> take 7 (List.map_filter accepted_insight (str_split [10] response)))"
proof (cases "generate_content gen (insights_prompt t) w")
  case (Pair out w')
  with generate_content_fst[of gen "insights_prompt t" w]
  have "fst (gen (model_state w) (insights_prompt t)) = out" by simp
  with Pair show ?thesis
    by (cases out) (simp_all add: get_overall_insights_def parse_insight_lines_map_filter)
qed

text \<open>
  C9 (as the code has it). The extractor returns, in the order of the lines of the
  response, the insights of the accepted lines, cut to the first seven. A trimmed
  line that starts with a bullet marker loses every leading marker and space
  character, is trimmed again, and is accepted if something remains; any other
  line is accepted unchanged, trimmed, if it has more than three tokens. When the
  call of the model fails the result is the one fixed message.
\<close>

theorem insights_extraction_rule:
  "fst (get_overall_insights gen t w) =
     (case fst (gen (model_state w) (insights_prompt t)) of
        Inl e \<Rightarrow> [ustr ''Unable to generate insights from reviews'']
      | Inr response \<Rightarrow> take 7 (List.map_filter accepted_insight (str_split [10] response))) \<and>
   length (fst (get_overall_insights gen t w)) \<le> 7"
proof
  show v: "fst (get_overall_insights gen t w) =
     (case fst (gen (model_state w) (insights_prompt t)) of
        Inl e \<Rightarrow> [ustr ''Unable to generate insights from reviews'']
      | Inr response \<Rightarrow> take 7 (List.map_filter accepted_insight (str_split [10] response)))"
    by (rule overall_insights_value)
  show "length (fst (get_overall_insights gen t w)) \<le> 7"
    unfolding v by (cases "fst (gen (model_state w) (insights_prompt t))") simp_all
qed

theorem insights_extraction_rule_witness:
  "fst (get_overall_insights scripted_model (ustr ''reviews'')
         (start_world [Inr (ustr ''Key insights:'' @ [10] @
            ustr ''- a'' @ [10, 8226] @ ustr '' b'' @ [10] @ ustr ''* c'' @ [10] @ ustr ''---'' @ [10] @
            ustr ''  The beach is clean  '' @ [10] @ ustr ''- d'' @ [10] @ ustr ''- e'' @ [10] @
            ustr ''- f'' @ [10] @ ustr ''- g'' @ [10] @ ustr ''- h'')])) =
     [ustr ''a'', ustr ''b'', ustr ''c'', ustr ''The beach is clean'', ustr ''d'', ustr ''e'', ustr ''f''] \<and>
   fst (get_overall_insights scripted_model (ustr ''reviews'') (start_world [Inl (ustr ''quota'')])) =
     [ustr ''Unable to generate insights from reviews'']"
  using
    insights_extraction_rule[of scripted_model "ustr ''reviews''"
      "start_world [Inr (ustr ''Key insights:'' @ [10] @
            ustr ''- a'' @ [10, 8226] @ ustr '' b'' @ [10] @ ustr ''* c'' @ [10] @ ustr ''---'' @ [10] @
            ustr ''  The beach is clean  '' @ [10] @ ustr ''- d'' @ [10] @ ustr ''- e'' @ [10] @
            ustr ''- f'' @ [10] @ ustr ''- g'' @ [10] @ ustr ''- h'')]"]
    insights_extraction_rule[of scripted_model "ustr ''reviews''" "start_world [Inl (ustr ''quota'')]"]
  by (simp add: scripted_model_def start_world_def accepted_insight_def starts_with_bullet_def
      lstrip_chars_def split_ws_def eval_strings)

text \<open>
  C9 as stated fails: for the line \<open>**Food**: great value\<close> the rule of the
  specification removes the one marker and keeps \<open>*Food**: great value\<close>, while
  the code removes both asterisks.
\<close>

theorem insights_marker_counterexample:
  "fst (get_overall_insights scripted_model (ustr ''reviews'')
         (start_world [Inr (ustr ''**Food**: great value'')])) = [ustr ''Food**: great value''] \<and>
   spec_extract_insights (ustr ''**Food**: great value'') = [ustr ''*Food**: great value''] \<and>
   fst (get_overall_insights scripted_model (ustr ''reviews'')
         (start_world [Inr (ustr ''**Food**: great value'')])) \<noteq>
     spec_extract_insights (ustr ''**Food**: great value'')"
  by (simp add: overall_insights_value scripted_model_def start_world_def accepted_insight_def
      spec_accepted_insight_def spec_extract_insights_def starts_with_bullet_def lstrip_chars_def
      split_ws_def eval_strings)

section \<open>Properties of the floating-point arithmetic\<close>

lemmas eval_double =
  to_double_def ilog2_def ge_pow2_def round_half_even_def compute_bitlen py_truediv_def Let_def

lemmas eval_float = eval_double percent_of_def percentage_def dict_get_def

lemma bitlen_mono: "a \<le> b \<Longrightarrow> bitlen a \<le> bitlen b"
  by (simp add: bitlen_def floorlog_mono nat_mono)

lemma ilog2_le_0: "n \<le> d \<Longrightarrow> ilog2 n d \<le> 0"
  using bitlen_mono[of n d] by (auto simp: ilog2_def Let_def)

lemma to_double_finite: "n \<le> d \<Longrightarrow> \<exists>m e. to_double n d = Finite m e"
  using ilog2_le_0[of n d] by (simp add: to_double_def Let_def)

lemma py_truediv_ok: "0 < t \<Longrightarrow> v \<le> t \<Longrightarrow> \<exists>m e. py_truediv v t = Inr (Finite m e)"
proof -
  assume t: "0 < t" and v: "v \<le> t"
  from v have "int v \<le> int t" by simp
  from to_double_finite[OF this] obtain m e where "to_double (int v) (int t) = Finite m e"
    by blast
  with t show ?thesis by (simp add: py_truediv_def)
qed

lemma rhe_cases:
  assumes "0 < d"
  shows "(2 * (n mod d) < d \<and> round_half_even n d = n div d) \<or>
         (d < 2 * (n mod d) \<and> round_half_even n d = n div d + 1) \<or>
         (2 * (n mod d) = d \<and> even (round_half_even n d) \<and>
            (round_half_even n d = n div d \<or> round_half_even n d = n div d + 1))"
  by (auto simp: round_half_even_def Let_def)

lemma rhe_error:
  assumes "0 < d"
  shows "\<bar>2 * (round_half_even n d * d - n)\<bar> \<le> d"
proof -
  have n: "n = (n div d) * d + n mod d" by simp
  have r: "0 \<le> n mod d" "n mod d < d" using assms by simp_all
  let ?f = "n div d" and ?r = "n mod d"
  have a: "?f * d - n = - ?r" using n by linarith
  have b: "(?f + 1) * d - n = d - ?r" using n by (simp add: algebra_simps)
  from rhe_cases[OF assms, of n] show ?thesis
    using a b r by (elim disjE conjE) simp_all
qed

lemma rhe_tie_even:
  assumes "0 < d" "\<bar>2 * (round_half_even n d * d - n)\<bar> = d"
  shows "even (round_half_even n d)"
proof -
  have n: "n = (n div d) * d + n mod d" by simp
  have r: "0 \<le> n mod d" "n mod d < d" using assms by simp_all
  let ?f = "n div d" and ?r = "n mod d"
  have a: "?f * d - n = - ?r" using n by linarith
  have b: "(?f + 1) * d - n = d - ?r" using n by (simp add: algebra_simps)
  from rhe_cases[OF assms(1), of n] show ?thesis
    using a b r assms(2) by (elim disjE conjE) simp_all
qed

lemma rhe_mono:
  assumes d: "0 < d1" "0 < d2" and le: "n1 * d2 \<le> n2 * d1"
  shows "round_half_even n1 d1 \<le> round_half_even n2 d2"
proof (rule ccontr)
  let ?r1 = "round_half_even n1 d1" and ?r2 = "round_half_even n2 d2"
  assume "\<not> ?r1 \<le> ?r2"
  then have gt: "?r2 + 1 \<le> ?r1" by simp
  from rhe_error[OF d(1), of n1] have e1: "2 * (?r1 * d1 - n1) \<le> d1" by simp
  from rhe_error[OF d(2), of n2] have e2: "- d2 \<le> 2 * (?r2 * d2 - n2)" by simp
  from e1 have "(2 * ?r1 - 1) * d1 \<le> 2 * n1" by (simp add: algebra_simps)
  then have "(2 * ?r1 - 1) * d1 * d2 \<le> 2 * n1 * d2" using d(2) by simp
  also have "\<dots> \<le> 2 * n2 * d1" using le by simp
  also have "\<dots> \<le> (2 * ?r2 + 1) * d2 * d1"
  proof -
    from e2 have "2 * n2 \<le> (2 * ?r2 + 1) * d2" by (simp add: algebra_simps)
    then show ?thesis using d(1) by simp
  qed
  finally have chain: "(2 * ?r1 - 1) * (d1 * d2) \<le> (2 * ?r2 + 1) * (d1 * d2)"
    by (simp add: algebra_simps)
  have pos: "0 < d1 * d2" using d by simp
  from chain pos have "2 * ?r1 - 1 \<le> 2 * ?r2 + 1" by (rule mult_right_le_imp_le)
  with gt have eq: "?r1 = ?r2 + 1" by simp
  have t1: "(2 * ?r1 - 1) * d1 = 2 * n1"
  proof (rule ccontr)
    assume "(2 * ?r1 - 1) * d1 \<noteq> 2 * n1"
    with \<open>(2 * ?r1 - 1) * d1 \<le> 2 * n1\<close> have "(2 * ?r1 - 1) * d1 < 2 * n1" by simp
    then have "(2 * ?r1 - 1) * d1 * d2 < 2 * n1 * d2" using d(2) by simp
    also have "\<dots> \<le> 2 * n2 * d1" using le by simp
    also have "\<dots> \<le> (2 * ?r2 + 1) * d2 * d1"
    proof -
      from e2 have "2 * n2 \<le> (2 * ?r2 + 1) * d2" by (simp add: algebra_simps)
      then show ?thesis using d(1) by simp
    qed
    finally have "(2 * ?r1 - 1) * (d1 * d2) < (2 * ?r2 + 1) * (d1 * d2)"
      by (simp add: algebra_simps)
    with pos have "2 * ?r1 - 1 < 2 * ?r2 + 1" by (auto dest: mult_right_less_imp_less)
    with eq show False by simp
  qed
  have t2: "2 * n2 = (2 * ?r2 + 1) * d2"
  proof (rule ccontr)
    assume "2 * n2 \<noteq> (2 * ?r2 + 1) * d2"
    moreover from e2 have "2 * n2 \<le> (2 * ?r2 + 1) * d2" by (simp add: algebra_simps)
    ultimately have "2 * n2 < (2 * ?r2 + 1) * d2" by simp
    then have "2 * n2 * d1 < (2 * ?r2 + 1) * d2 * d1" using d(1) by simp
    moreover have "(2 * ?r1 - 1) * d1 * d2 \<le> 2 * n2 * d1"
      using \<open>(2 * ?r1 - 1) * d1 * d2 \<le> 2 * n1 * d2\<close> le by simp
    ultimately have "(2 * ?r1 - 1) * (d1 * d2) < (2 * ?r2 + 1) * (d1 * d2)"
      by (simp add: algebra_simps)
    with pos have "2 * ?r1 - 1 < 2 * ?r2 + 1" by (auto dest: mult_right_less_imp_less)
    with eq show False by simp
  qed
  from t1 have "\<bar>2 * (?r1 * d1 - n1)\<bar> = d1" using d(1) by (simp add: algebra_simps)
  from rhe_tie_even[OF d(1) this] have ev1: "even ?r1" .
  from t2 have "\<bar>2 * (?r2 * d2 - n2)\<bar> = d2" using d(2) by (simp add: algebra_simps)
  from rhe_tie_even[OF d(2) this] have ev2: "even ?r2" .
  from ev1 ev2 eq show False by simp
qed

lemma ge_pow2_iff:
  assumes "0 < d"
  shows "ge_pow2 n d k \<longleftrightarrow> (2::rat) powi k \<le> of_int n / of_int d"
proof (cases "0 \<le> k")
  case True
  have dpos: "(0::rat) < of_int d" using assms by simp
  from True have p: "(2::rat) powi k = 2 ^ nat k" by (rule power_int_nonneg_exp)
  have e: "((2::rat) ^ nat k \<le> of_int n / of_int d) \<longleftrightarrow> (2 ^ nat k * of_int d \<le> (of_int n :: rat))"
    using dpos by (rule pos_le_divide_eq)
  have f: "((2::rat) ^ nat k * of_int d) = of_int (d * 2 ^ nat k)" by simp
  have g: "((of_int (d * 2 ^ nat k) :: rat) \<le> of_int n) \<longleftrightarrow> d * 2 ^ nat k \<le> n"
    by (rule of_int_le_iff)
  have "ge_pow2 n d k \<longleftrightarrow> d * 2 ^ nat k \<le> n" using True by (simp only: ge_pow2_def if_True)
  then show ?thesis by (simp only: p e f g)
next
  case False
  have dpos: "(0::rat) < of_int d" using assms by simp
  have apos: "(0::rat) < 2 ^ nat (- k)" by simp
  from False have p: "(2::rat) powi k = 1 / 2 ^ nat (- k)"
    by (simp add: power_int_def inverse_eq_divide power_one_over)
  have e: "((1::rat) / 2 ^ nat (- k) \<le> of_int n / of_int d) \<longleftrightarrow>
      (1 / 2 ^ nat (- k) * of_int d \<le> (of_int n :: rat))"
    using dpos by (rule pos_le_divide_eq)
  have e2: "(1::rat) / 2 ^ nat (- k) * of_int d = of_int d / 2 ^ nat (- k)" by simp
  have e3: "((of_int d :: rat) / 2 ^ nat (- k) \<le> of_int n) \<longleftrightarrow> (of_int d \<le> (of_int n :: rat) * 2 ^ nat (- k))"
    using apos by (rule pos_divide_le_eq)
  have f: "((of_int n :: rat) * 2 ^ nat (- k)) = of_int (n * 2 ^ nat (- k))" by simp
  have g: "((of_int d :: rat) \<le> of_int (n * 2 ^ nat (- k))) \<longleftrightarrow> d \<le> n * 2 ^ nat (- k)"
    by (rule of_int_le_iff)
  have "ge_pow2 n d k \<longleftrightarrow> d \<le> n * 2 ^ nat (- k)" using False by (simp only: ge_pow2_def if_False)
  then show ?thesis by (simp only: p e e2 e3 f g)
qed

lemma bitlen_rat_bounds:
  assumes "0 < x"
  shows "(2::rat) powi (bitlen x - 1) \<le> of_int x" "(of_int x :: rat) < 2 powi bitlen x"
proof -
  from bitlen_bounds[OF assms] have a: "2 ^ nat (bitlen x - 1) \<le> x" and b: "x < 2 ^ nat (bitlen x)"
    by simp_all
  have nz: "bitlen x \<noteq> 0" using assms by (simp add: bitlen_eq_zero_iff)
  with bitlen_nonneg[of x] have pos: "0 \<le> bitlen x - 1" "0 \<le> bitlen x" by simp_all
  from a have "(of_int (2 ^ nat (bitlen x - 1)) :: rat) \<le> of_int x" by (simp only: of_int_le_iff)
  then have "(2::rat) ^ nat (bitlen x - 1) \<le> of_int x" by simp
  then show "(2::rat) powi (bitlen x - 1) \<le> of_int x"
    by (simp only: power_int_nonneg_exp[OF pos(1)])
  from b have "(of_int x :: rat) < of_int (2 ^ nat (bitlen x))" by (simp only: of_int_less_iff)
  then have "(of_int x :: rat) < 2 ^ nat (bitlen x)" by simp
  then show "(of_int x :: rat) < 2 powi bitlen x"
    by (simp only: power_int_nonneg_exp[OF pos(2)])
qed

lemma powi2_add: "(2::rat) powi (a + b) = 2 powi a * 2 powi b"
  by (rule power_int_add) simp

lemma powi2_pos: "(0::rat) < 2 powi a"
  by simp

lemma ilog2_bounds:
  assumes "0 < n" "0 < d"
  shows "(2::rat) powi (ilog2 n d) \<le> of_int n / of_int d"
    and "of_int n / of_int d < (2::rat) powi (ilog2 n d + 1)"
proof -
  let ?x = "of_int n / of_int d :: rat" and ?k = "bitlen n - bitlen d"
  have dpos: "(0::rat) < of_int d" using assms by simp
  have lo: "(2::rat) powi (?k - 1) \<le> ?x"
  proof -
    have "(2::rat) powi (?k - 1) * of_int d \<le> 2 powi (?k - 1) * 2 powi bitlen d"
      using bitlen_rat_bounds(2)[OF assms(2)] powi2_pos[of "?k - 1"]
      by (intro mult_left_mono) simp_all
    also have "\<dots> = 2 powi ((?k - 1) + bitlen d)" by (rule powi2_add[symmetric])
    also have "(?k - 1) + bitlen d = bitlen n - 1" by simp
    also have "(2::rat) powi (bitlen n - 1) \<le> of_int n" by (rule bitlen_rat_bounds(1)[OF assms(1)])
    finally have "(2::rat) powi (?k - 1) * of_int d \<le> of_int n" .
    then show ?thesis using dpos by (simp only: pos_le_divide_eq)
  qed
  have hi: "?x < (2::rat) powi (?k + 1)"
  proof -
    have "of_int n < (2::rat) powi bitlen n" by (rule bitlen_rat_bounds(2)[OF assms(1)])
    also have "bitlen n = (?k + 1) + (bitlen d - 1)" by simp
    also have "(2::rat) powi ((?k + 1) + (bitlen d - 1)) = 2 powi (?k + 1) * 2 powi (bitlen d - 1)"
      by (rule powi2_add)
    also have "\<dots> \<le> 2 powi (?k + 1) * of_int d"
      using bitlen_rat_bounds(1)[OF assms(2)] powi2_pos[of "?k + 1"]
      by (intro mult_left_mono) simp_all
    finally have "of_int n < (2::rat) powi (?k + 1) * of_int d" .
    then show ?thesis using dpos by (simp only: pos_divide_less_eq)
  qed
  show "(2::rat) powi (ilog2 n d) \<le> ?x"
  proof (cases "ge_pow2 n d ?k")
    case True
    then have "ilog2 n d = ?k" by (simp add: ilog2_def Let_def)
    with True ge_pow2_iff[OF assms(2), of n ?k] show ?thesis by simp
  next
    case False
    then have "ilog2 n d = ?k - 1" by (simp add: ilog2_def Let_def)
    with lo show ?thesis by simp
  qed
  show "?x < (2::rat) powi (ilog2 n d + 1)"
  proof (cases "ge_pow2 n d ?k")
    case True
    then have "ilog2 n d = ?k" by (simp add: ilog2_def Let_def)
    with hi show ?thesis by simp
  next
    case False
    then have e: "ilog2 n d = ?k - 1" by (simp add: ilog2_def Let_def)
    from False ge_pow2_iff[OF assms(2), of n ?k] have "?x < (2::rat) powi ?k" by simp
    then show ?thesis unfolding e by simp
  qed
qed

lemma ilog2_mono:
  assumes "0 < n1" "0 < d1" "0 < n2" "0 < d2"
    and "(of_int n1 / of_int d1 :: rat) \<le> of_int n2 / of_int d2"
  shows "ilog2 n1 d1 \<le> ilog2 n2 d2"
proof (rule ccontr)
  assume "\<not> ilog2 n1 d1 \<le> ilog2 n2 d2"
  then have "ilog2 n2 d2 + 1 \<le> ilog2 n1 d1" by simp
  then have "(2::rat) powi (ilog2 n2 d2 + 1) \<le> 2 powi (ilog2 n1 d1)"
    by (rule power_int_increasing) simp
  also have "\<dots> \<le> of_int n1 / of_int d1" by (rule ilog2_bounds(1)[OF assms(1,2)])
  also have "\<dots> \<le> of_int n2 / of_int d2" by (rule assms(5))
  also have "\<dots> < 2 powi (ilog2 n2 d2 + 1)" by (rule ilog2_bounds(2)[OF assms(3,4)])
  finally show False by simp
qed

lemma frac_le_cross:
  assumes "0 < D1" "0 < D2"
  shows "((of_int N1 / of_int D1 :: rat) \<le> of_int N2 / of_int D2) = (N1 * D2 \<le> N2 * D1)"
proof -
  have p1: "(0::rat) < of_int D1" and p2: "(0::rat) < of_int D2" using assms by simp_all
  have "((of_int N1 / of_int D1 :: rat) \<le> of_int N2 / of_int D2) =
      (of_int N1 * of_int D2 \<le> (of_int N2 * of_int D1 :: rat))"
    using p1 p2 by (simp add: pos_divide_le_eq pos_le_divide_eq mult.commute)
  also have "\<dots> = ((of_int (N1 * D2) :: rat) \<le> of_int (N2 * D1))" by simp
  also have "\<dots> = (N1 * D2 \<le> N2 * D1)" by (rule of_int_le_iff)
  finally show ?thesis .
qed

lemma rhe_mono_rat:
  assumes "0 < D1" "0 < D2" "(of_int N1 / of_int D1 :: rat) \<le> of_int N2 / of_int D2"
  shows "round_half_even N1 D1 \<le> round_half_even N2 D2"
  using assms rhe_mono[of D1 D2 N1 N2] by (simp add: frac_le_cross)

lemma rhe_of_int: "round_half_even k 1 = k"
  by (simp add: round_half_even_def)

lemma rhe_ge_int:
  assumes "0 < D" "(of_int k :: rat) \<le> of_int N / of_int D"
  shows "k \<le> round_half_even N D"
proof -
  have "(of_int k / of_int 1 :: rat) \<le> of_int N / of_int D" using assms(2) by simp
  from rhe_mono_rat[OF _ assms(1) this] show ?thesis by (simp add: rhe_of_int)
qed

lemma rhe_le_int:
  assumes "0 < D" "(of_int N / of_int D :: rat) \<le> of_int k"
  shows "round_half_even N D \<le> k"
proof -
  have "(of_int N / of_int D :: rat) \<le> of_int k / of_int 1" using assms(2) by simp
  from rhe_mono_rat[OF assms(1) _ this] show ?thesis by (simp add: rhe_of_int)
qed

lemma powi2_nonneg: "0 \<le> k \<Longrightarrow> (2::rat) powi k = of_int (2 ^ nat k)"
  by (simp add: power_int_nonneg_exp)

lemma powi2_neg: "(2::rat) powi (- k) = 1 / 2 powi k"
  by (rule power_int_minus_divide)

lemma to_double_unfold:
  assumes "0 < n" "0 < d" "to_double n d = Finite m q"
  shows "q = max (ilog2 n d - 52) (- 1074)"
    and "\<exists>N D. 0 < D \<and> m = round_half_even N D \<and>
           (of_int N / of_int D :: rat) = (of_int n / of_int d) * 2 powi (- q)"
proof -
  let ?q = "max (ilog2 n d - 52) (- 1074)"
  let ?m = "if 0 \<le> ?q then round_half_even n (d * 2 ^ nat ?q)
            else round_half_even (n * 2 ^ nat (- ?q)) d"
  from assms(1,3) have "(if 0 \<le> ?q \<and> 2 ^ 1024 \<le> ?m * 2 ^ nat ?q then Infinity else Finite ?m ?q)
      = Finite m q"
    by (simp add: to_double_def Let_def)
  then have mq: "m = ?m" "q = ?q" by (simp_all split: if_splits)
  show "q = ?q" by (rule mq(2))
  show "\<exists>N D. 0 < D \<and> m = round_half_even N D \<and>
           (of_int N / of_int D :: rat) = (of_int n / of_int d) * 2 powi (- q)"
  proof (cases "0 \<le> q")
    case True
    then have m: "m = round_half_even n (d * 2 ^ nat q)" using mq by simp
    have D: "0 < d * 2 ^ nat q" using assms(2) by simp
    have "(2::rat) powi (- q) = 1 / 2 ^ nat q"
      using True by (simp add: powi2_neg power_int_nonneg_exp)
    then have "(of_int n / of_int (d * 2 ^ nat q) :: rat) = (of_int n / of_int d) * 2 powi (- q)"
      by simp
    with m D show ?thesis by blast
  next
    case False
    then have m: "m = round_half_even (n * 2 ^ nat (- q)) d" using mq by simp
    from False have "(2::rat) powi (- q) = 2 ^ nat (- q)" by (simp add: power_int_nonneg_exp)
    then have "(of_int (n * 2 ^ nat (- q)) / of_int d :: rat) = (of_int n / of_int d) * 2 powi (- q)"
      by simp
    with m assms(2) show ?thesis by blast
  qed
qed

lemma to_double_mono_pos:
  assumes pos: "0 < n1" "0 < d1" "0 < n2" "0 < d2"
    and le: "(of_int n1 / of_int d1 :: rat) \<le> of_int n2 / of_int d2"
    and t1: "to_double n1 d1 = Finite m1 q1"
    and t2: "to_double n2 d2 = Finite m2 q2"
  shows "(of_int m1 * 2 powi q1 :: rat) \<le> of_int m2 * 2 powi q2"
proof -
  let ?x1 = "of_int n1 / of_int d1 :: rat" and ?x2 = "of_int n2 / of_int d2 :: rat"
  let ?E1 = "ilog2 n1 d1" and ?E2 = "ilog2 n2 d2"
  have E: "?E1 \<le> ?E2" by (rule ilog2_mono[OF pos le])
  have q1: "q1 = max (?E1 - 52) (- 1074)" by (rule to_double_unfold(1)[OF pos(1,2) t1])
  have q2: "q2 = max (?E2 - 52) (- 1074)" by (rule to_double_unfold(1)[OF pos(3,4) t2])
  from to_double_unfold(2)[OF pos(1,2) t1] obtain N1 D1 where
    r1: "0 < D1" "m1 = round_half_even N1 D1" "(of_int N1 / of_int D1 :: rat) = ?x1 * 2 powi (- q1)"
    by blast
  from to_double_unfold(2)[OF pos(3,4) t2] obtain N2 D2 where
    r2: "0 < D2" "m2 = round_half_even N2 D2" "(of_int N2 / of_int D2 :: rat) = ?x2 * 2 powi (- q2)"
    by blast
  from E q1 q2 have qle: "q1 \<le> q2" by simp
  show ?thesis
  proof (cases "q1 = q2")
    case True
    have "?x1 * 2 powi (- q1) \<le> ?x2 * 2 powi (- q1)"
      using le by (intro mult_right_mono) simp_all
    with r1(3) r2(3) True have "(of_int N1 / of_int D1 :: rat) \<le> of_int N2 / of_int D2" by simp
    from rhe_mono_rat[OF r1(1) r2(1) this] have "m1 \<le> m2" using r1(2) r2(2) by simp
    then have "(of_int m1 :: rat) \<le> of_int m2" by simp
    then have "(of_int m1 :: rat) * 2 powi q1 \<le> of_int m2 * 2 powi q1"
      by (intro mult_right_mono) simp_all
    with True show ?thesis by simp
  next
    case False
    with qle have lt: "q1 < q2" by simp
    with q1 q2 have q2E: "q2 = ?E2 - 52" and E1: "?E1 - 52 \<le> q1"
      by (simp_all add: max_def split: if_splits)
    from lt q2E E1 have Elt: "?E1 + 1 \<le> ?E2" by simp
    \<comment> \<open>the larger value is at least \<open>2 powi E2\<close>\<close>
    have "(2::rat) powi 52 = 2 powi ?E2 * 2 powi (- q2)"
      unfolding q2E by (simp add: powi2_add[symmetric])
    also have "\<dots> \<le> ?x2 * 2 powi (- q2)"
      using ilog2_bounds(1)[OF pos(3,4)] by (intro mult_right_mono) simp_all
    finally have "(of_int (2 ^ 52) :: rat) \<le> of_int N2 / of_int D2" using r2(3) by simp
    from rhe_ge_int[OF r2(1) this] have "2 ^ 52 \<le> m2" using r2(2) by simp
    then have "(of_int (2 ^ 52) :: rat) \<le> of_int m2" by (simp only: of_int_le_iff)
    then have a: "(of_int (2 ^ 52) :: rat) * 2 powi q2 \<le> of_int m2 * 2 powi q2"
      by (intro mult_right_mono) simp_all
    have b: "(of_int (2 ^ 52) :: rat) * 2 powi q2 = 2 powi ?E2"
    proof -
      have "(of_int (2 ^ 52) :: rat) = 2 powi 52" by simp
      then have "(of_int (2 ^ 52) :: rat) * 2 powi q2 = 2 powi (52 + q2)"
        by (simp only: powi2_add)
      then show ?thesis unfolding q2E by simp
    qed
    from a have big: "(2::rat) powi ?E2 \<le> of_int m2 * 2 powi q2" unfolding b .
    \<comment> \<open>the smaller value is at most \<open>2 powi E2\<close>\<close>
    let ?k = "?E2 - q1"
    from lt q2E have kpos: "0 \<le> ?k" by simp
    have "?x1 \<le> 2 powi (?E1 + 1)" using ilog2_bounds(2)[OF pos(1,2)] by simp
    also have "\<dots> \<le> 2 powi ?E2" using Elt by (intro power_int_increasing) simp_all
    finally have "?x1 * 2 powi (- q1) \<le> 2 powi ?E2 * 2 powi (- q1)"
      by (intro mult_right_mono) simp_all
    also have "\<dots> = 2 powi ?k" by (simp add: powi2_add[symmetric])
    also have "\<dots> = of_int (2 ^ nat ?k)" using kpos by (rule powi2_nonneg)
    finally have "(of_int N1 / of_int D1 :: rat) \<le> of_int (2 ^ nat ?k)" using r1(3) by simp
    from rhe_le_int[OF r1(1) this] have "m1 \<le> 2 ^ nat ?k" using r1(2) by simp
    then have "(of_int m1 :: rat) \<le> of_int (2 ^ nat ?k)" by (simp only: of_int_le_iff)
    then have "(of_int m1 :: rat) * 2 powi q1 \<le> of_int (2 ^ nat ?k) * 2 powi q1"
      by (intro mult_right_mono) simp_all
    also have "(of_int (2 ^ nat ?k) :: rat) = 2 powi ?k" using kpos by (rule powi2_nonneg[symmetric])
    also have "(2::rat) powi ?k * 2 powi q1 = 2 powi (?k + q1)" by (rule powi2_add[symmetric])
    also have "?k + q1 = ?E2" by simp
    finally have "(of_int m1 :: rat) * 2 powi q1 \<le> 2 powi ?E2" .
    with big show ?thesis by simp
  qed
qed

lemma to_double_zero: "to_double 0 d = Finite 0 0"
  by (simp add: to_double_def)

lemma to_double_nonneg:
  assumes "0 \<le> n" "0 < d" "to_double n d = Finite m q"
  shows "0 \<le> m"
proof (cases "n = 0")
  case True
  with assms(3) show ?thesis by (simp add: to_double_zero)
next
  case False
  with assms(1) have n: "0 < n" by simp
  from to_double_unfold(2)[OF n assms(2,3)] obtain N D where
    r: "0 < D" "m = round_half_even N D"
       "(of_int N / of_int D :: rat) = (of_int n / of_int d) * 2 powi (- q)"
    by blast
  have "(0::rat) \<le> (of_int n / of_int d) * 2 powi (- q)" using n assms(2) by simp
  with r(3) have "(of_int 0 :: rat) \<le> of_int N / of_int D" by simp
  from rhe_ge_int[OF r(1) this] r(2) show ?thesis by simp
qed

lemma to_double_mono:
  assumes "0 \<le> n1" "0 < d1" "0 \<le> n2" "0 < d2"
    and le: "(of_int n1 / of_int d1 :: rat) \<le> of_int n2 / of_int d2"
    and t1: "to_double n1 d1 = Finite m1 q1"
    and t2: "to_double n2 d2 = Finite m2 q2"
  shows "(of_int m1 * 2 powi q1 :: rat) \<le> of_int m2 * 2 powi q2"
proof (cases "n1 = 0")
  case True
  with t1 have "m1 = 0" by (simp add: to_double_zero)
  moreover from to_double_nonneg[OF assms(3,4) t2] have "(0::rat) \<le> of_int m2 * 2 powi q2" by simp
  ultimately show ?thesis by simp
next
  case False
  with assms(1) have n1: "0 < n1" by simp
  have "(0::rat) < of_int n1 / of_int d1" using n1 assms(2) by simp
  with le have "(0::rat) < of_int n2 / of_int d2" by simp
  with assms(4) have n2: "0 < n2" by (simp add: zero_less_divide_iff)
  from to_double_mono_pos[OF n1 assms(2) n2 assms(4) le t1 t2] show ?thesis .
qed

lemma float_gt_iff: "float_gt (Finite m e) k \<longleftrightarrow> (of_int k :: rat) < of_int m * 2 powi e"
proof (cases "0 \<le> e")
  case True
  then have p: "(2::rat) powi e = of_int (2 ^ nat e)" by (rule powi2_nonneg)
  have "(of_int k :: rat) < of_int m * of_int (2 ^ nat e) \<longleftrightarrow> (of_int k :: rat) < of_int (m * 2 ^ nat e)"
    by simp
  also have "\<dots> \<longleftrightarrow> k < m * 2 ^ nat e" by (rule of_int_less_iff)
  finally show ?thesis using True unfolding p by simp
next
  case False
  then have "0 \<le> - e" by simp
  then have "(2::rat) powi (- e) = of_int (2 ^ nat (- e))" by (rule powi2_nonneg)
  then have p: "(2::rat) powi e = 1 / of_int (2 ^ nat (- e))"
    using powi2_neg[of "- e"] by simp
  have pos: "(0::rat) < of_int (2 ^ nat (- e))" by simp
  have "(of_int k :: rat) < of_int m * (1 / of_int (2 ^ nat (- e))) \<longleftrightarrow>
        (of_int k :: rat) < of_int m / of_int (2 ^ nat (- e))" by simp
  also have "\<dots> \<longleftrightarrow> (of_int k :: rat) * of_int (2 ^ nat (- e)) < of_int m"
    using pos by (rule pos_less_divide_eq)
  also have "(of_int k :: rat) * of_int (2 ^ nat (- e)) = of_int (k * 2 ^ nat (- e))" by simp
  also have "((of_int (k * 2 ^ nat (- e)) :: rat) < of_int m) \<longleftrightarrow> k * 2 ^ nat (- e) < m"
    by (rule of_int_less_iff)
  finally show ?thesis using False unfolding p by simp
qed

lemma py_mul_as_to_double:
  assumes "0 \<le> m"
  shows "\<exists>N D. 0 \<le> N \<and> 0 < D \<and> py_mul (Finite m e) k = to_double N D \<and>
           (of_int N / of_int D :: rat) = of_int m * 2 powi e * of_int (int k)"
proof (cases "0 \<le> e")
  case True
  then have p: "(2::rat) powi e = of_int (2 ^ nat e)" by (rule powi2_nonneg)
  have "(of_int (m * int k * 2 ^ nat e) / of_int 1 :: rat) = of_int m * 2 powi e * of_int (int k)"
    unfolding p by simp
  moreover have "py_mul (Finite m e) k = to_double (m * int k * 2 ^ nat e) 1" using True by simp
  moreover have "0 \<le> m * int k * 2 ^ nat e" using assms by simp
  ultimately show ?thesis by (metis zero_less_one)
next
  case False
  then have "0 \<le> - e" by simp
  then have "(2::rat) powi (- e) = of_int (2 ^ nat (- e))" by (rule powi2_nonneg)
  then have p: "(2::rat) powi e = 1 / of_int (2 ^ nat (- e))"
    using powi2_neg[of "- e"] by simp
  have "(of_int (m * int k) / of_int (2 ^ nat (- e)) :: rat) = of_int m * 2 powi e * of_int (int k)"
    unfolding p by simp
  moreover have "py_mul (Finite m e) k = to_double (m * int k) (2 ^ nat (- e))" using False by simp
  moreover have "0 \<le> m * int k" using assms by simp
  moreover have "(0::int) < 2 ^ nat (- e)" by simp
  ultimately show ?thesis by metis
qed

lemma py_mul_mono:
  assumes "0 \<le> m1" "0 \<le> m2"
    and le: "(of_int m1 * 2 powi e1 :: rat) \<le> of_int m2 * 2 powi e2"
    and r1: "py_mul (Finite m1 e1) k = Finite a1 b1"
    and r2: "py_mul (Finite m2 e2) k = Finite a2 b2"
  shows "(of_int a1 * 2 powi b1 :: rat) \<le> of_int a2 * 2 powi b2"
proof -
  from py_mul_as_to_double[OF assms(1), of e1 k] obtain N1 D1 where
    h1: "0 \<le> N1" "0 < D1" "py_mul (Finite m1 e1) k = to_double N1 D1"
        "(of_int N1 / of_int D1 :: rat) = of_int m1 * 2 powi e1 * of_int (int k)"
    by blast
  from py_mul_as_to_double[OF assms(2), of e2 k] obtain N2 D2 where
    h2: "0 \<le> N2" "0 < D2" "py_mul (Finite m2 e2) k = to_double N2 D2"
        "(of_int N2 / of_int D2 :: rat) = of_int m2 * 2 powi e2 * of_int (int k)"
    by blast
  have "(of_int m1 * 2 powi e1 :: rat) * of_int (int k) \<le> of_int m2 * 2 powi e2 * of_int (int k)"
    using le by (intro mult_right_mono) simp_all
  then have "(of_int N1 / of_int D1 :: rat) \<le> of_int N2 / of_int D2" unfolding h1(4) h2(4) .
  moreover from h1(3) r1 have "to_double N1 D1 = Finite a1 b1" by simp
  moreover from h2(3) r2 have "to_double N2 D2 = Finite a2 b2" by simp
  ultimately show ?thesis using to_double_mono[OF h1(1,2) h2(1,2)] by blast
qed

lemma to_double_finite_small:
  assumes "0 \<le> N" "0 < D" "(of_int N / of_int D :: rat) < 2 powi 52"
  shows "\<exists>a b. to_double N D = Finite a b"
proof (cases "N = 0")
  case True
  then show ?thesis by (simp add: to_double_zero)
next
  case False
  with assms(1) have N: "0 < N" by simp
  have "ilog2 N D < 52"
  proof (rule ccontr)
    assume "\<not> ilog2 N D < 52"
    then have "52 \<le> ilog2 N D" by simp
    then have "(2::rat) powi 52 \<le> 2 powi (ilog2 N D)" by (rule power_int_increasing) simp
    also have "\<dots> \<le> of_int N / of_int D" by (rule ilog2_bounds(1)[OF N assms(2)])
    finally show False using assms(3) by simp
  qed
  then have "\<not> 0 \<le> max (ilog2 N D - 52) (- 1074)" by simp
  then show ?thesis using False by (simp only: to_double_def Let_def if_False simp_thms) blast
qed

lemma truediv_shape:
  assumes "0 < t" "p \<le> t" "py_truediv p t = Inr x"
  shows "\<exists>m q. x = Finite m q \<and> to_double (int p) (int t) = Finite m q \<and> 0 \<le> m \<and>
           (of_int m * 2 powi q :: rat) \<le> 1"
proof -
  have "\<exists>m q. x = Finite m q \<and> to_double (int p) (int t) = Finite m q"
  proof (cases "to_double (int p) (int t)")
    case (Finite m q)
    with assms(1,3) show ?thesis by (auto simp: py_truediv_def)
  next
    case Infinity
    with assms(1,3) show ?thesis by (simp add: py_truediv_def)
  qed
  then obtain m q where x: "x = Finite m q" and t: "to_double (int p) (int t) = Finite m q"
    by blast
  have m: "0 \<le> m" using to_double_nonneg[OF _ _ t] assms(1) by simp
  have one: "to_double 1 1 = Finite 4503599627370496 (- 52)" by (simp add: eval_double)
  have "(of_int (int p) / of_int (int t) :: rat) \<le> of_int 1 / of_int 1"
    using assms(1,2) by (simp add: pos_divide_le_eq)
  from to_double_mono[OF _ _ _ _ this t one] assms(1)
  have "(of_int m * 2 powi q :: rat) \<le> of_int 4503599627370496 * 2 powi (- 52)" by simp
  also have "\<dots> = 1" by simp
  finally show ?thesis using x t m by blast
qed

lemma percent_shape:
  assumes "0 < t" "p \<le> t" "py_truediv p t = Inr x"
  shows "\<exists>a b. py_mul x 100 = Finite a b"
proof -
  from truediv_shape[OF assms] obtain m q where
    x: "x = Finite m q" and m: "0 \<le> m" and le: "(of_int m * 2 powi q :: rat) \<le> 1"
    by blast
  from py_mul_as_to_double[OF m, of q 100] obtain N D where
    h: "0 \<le> N" "0 < D" "py_mul (Finite m q) 100 = to_double N D"
       "(of_int N / of_int D :: rat) = of_int m * 2 powi q * of_int (int 100)"
    by blast
  have "(of_int m * 2 powi q :: rat) * of_int (int 100) \<le> 1 * of_int (int 100)"
    using le by (intro mult_right_mono) simp_all
  also have "\<dots> < 2 powi 52" by simp
  finally have "(of_int N / of_int D :: rat) < 2 powi 52" unfolding h(4) .
  from to_double_finite_small[OF h(1,2) this] show ?thesis using h(3) x by simp
qed

lemma percent_mono:
  assumes t: "0 < t1" "0 < t2" and p: "p1 \<le> t1" "p2 \<le> t2"
    and le: "p1 * t2 \<le> p2 * t1"
    and x: "py_truediv p1 t1 = Inr x1" "py_truediv p2 t2 = Inr x2"
    and y: "py_mul x1 100 = Finite a1 b1" "py_mul x2 100 = Finite a2 b2"
  shows "(of_int a1 * 2 powi b1 :: rat) \<le> of_int a2 * 2 powi b2"
proof -
  from truediv_shape[OF t(1) p(1) x(1)] obtain m1 q1 where
    s1: "x1 = Finite m1 q1" "to_double (int p1) (int t1) = Finite m1 q1" "0 \<le> m1" by blast
  from truediv_shape[OF t(2) p(2) x(2)] obtain m2 q2 where
    s2: "x2 = Finite m2 q2" "to_double (int p2) (int t2) = Finite m2 q2" "0 \<le> m2" by blast
  from le have "int p1 * int t2 \<le> int p2 * int t1" by (metis of_nat_le_iff of_nat_mult)
  then have "(of_int (int p1) / of_int (int t1) :: rat) \<le> of_int (int p2) / of_int (int t2)"
    using t by (simp only: frac_le_cross of_nat_0_less_iff)
  from to_double_mono[OF _ _ _ _ this s1(2) s2(2)] t
  have "(of_int m1 * 2 powi q1 :: rat) \<le> of_int m2 * 2 powi q2" by simp
  from py_mul_mono[OF s1(3) s2(3) this] y s1(1) s2(1) show ?thesis by simp
qed

lemma ref_70: "\<exists>x a b. py_truediv 7 10 = Inr x \<and> py_mul x 100 = Finite a b \<and> \<not> float_gt (Finite a b) 70"
  by (simp add: eval_double)

lemma ref_70_above:
  "\<exists>x a b. py_truediv 1970324836974593 2814749767106560 = Inr x \<and> py_mul x 100 = Finite a b \<and>
     float_gt (Finite a b) 70"
  by (simp add: eval_double)

lemma ref_50: "\<exists>x a b. py_truediv 1 2 = Inr x \<and> py_mul x 100 = Finite a b \<and> \<not> float_gt (Finite a b) 50"
  by (simp add: eval_double)

lemma ref_50_above:
  "\<exists>x a b. py_truediv 281474976710657 562949953421312 = Inr x \<and> py_mul x 100 = Finite a b \<and>
     float_gt (Finite a b) 50"
  by (simp add: eval_double)

lemma percent_gt_70:
  assumes "0 < t" "t \<le> 2 ^ 48" "p \<le> t" "py_truediv p t = Inr x"
  shows "float_gt (py_mul x 100) 70 \<longleftrightarrow> 7 * t < 10 * p"
proof -
  from percent_shape[OF assms(1,3,4)] obtain a b where y: "py_mul x 100 = Finite a b" by blast
  show ?thesis
  proof
    assume "float_gt (py_mul x 100) 70"
    then have gt: "(of_int 70 :: rat) < of_int a * 2 powi b" unfolding y float_gt_iff .
    show "7 * t < 10 * p"
    proof (rule ccontr)
      assume "\<not> 7 * t < 10 * p"
      then have le: "p * 10 \<le> 7 * t" by simp
      from ref_70 obtain x0 a0 b0 where
        r: "py_truediv 7 10 = Inr x0" "py_mul x0 100 = Finite a0 b0" "\<not> float_gt (Finite a0 b0) 70"
        by blast
      from percent_mono[OF assms(1) _ assms(3) _ le assms(4) r(1) y r(2)]
      have "(of_int a * 2 powi b :: rat) \<le> of_int a0 * 2 powi b0" by simp
      with gt have "(of_int 70 :: rat) < of_int a0 * 2 powi b0" by simp
      with r(3) show False unfolding float_gt_iff by simp
    qed
  next
    assume h: "7 * t < 10 * p"
    from ref_70_above obtain x0 a0 b0 where
      r: "py_truediv 1970324836974593 2814749767106560 = Inr x0" "py_mul x0 100 = Finite a0 b0"
         "float_gt (Finite a0 b0) 70"
      by blast
    have k: "(2::nat) ^ 48 = 281474976710656" by simp
    from h assms(2) have le: "1970324836974593 * t \<le> p * 2814749767106560"
      unfolding k by linarith
    from percent_mono[OF _ assms(1) _ assms(3) le r(1) assms(4) r(2) y]
    have "(of_int a0 * 2 powi b0 :: rat) \<le> of_int a * 2 powi b" by simp
    moreover from r(3) have "(of_int 70 :: rat) < of_int a0 * 2 powi b0" unfolding float_gt_iff .
    ultimately have "(of_int 70 :: rat) < of_int a * 2 powi b" by simp
    then show "float_gt (py_mul x 100) 70" unfolding y float_gt_iff .
  qed
qed

lemma percent_gt_50:
  assumes "0 < t" "t \<le> 2 ^ 48" "p \<le> t" "py_truediv p t = Inr x"
  shows "float_gt (py_mul x 100) 50 \<longleftrightarrow> t < 2 * p"
proof -
  from percent_shape[OF assms(1,3,4)] obtain a b where y: "py_mul x 100 = Finite a b" by blast
  show ?thesis
  proof
    assume "float_gt (py_mul x 100) 50"
    then have gt: "(of_int 50 :: rat) < of_int a * 2 powi b" unfolding y float_gt_iff .
    show "t < 2 * p"
    proof (rule ccontr)
      assume "\<not> t < 2 * p"
      then have le: "p * 2 \<le> 1 * t" by simp
      from ref_50 obtain x0 a0 b0 where
        r: "py_truediv 1 2 = Inr x0" "py_mul x0 100 = Finite a0 b0" "\<not> float_gt (Finite a0 b0) 50"
        by blast
      from percent_mono[OF assms(1) _ assms(3) _ le assms(4) r(1) y r(2)]
      have "(of_int a * 2 powi b :: rat) \<le> of_int a0 * 2 powi b0" by simp
      with gt have "(of_int 50 :: rat) < of_int a0 * 2 powi b0" by simp
      with r(3) show False unfolding float_gt_iff by simp
    qed
  next
    assume h: "t < 2 * p"
    from ref_50_above obtain x0 a0 b0 where
      r: "py_truediv 281474976710657 562949953421312 = Inr x0" "py_mul x0 100 = Finite a0 b0"
         "float_gt (Finite a0 b0) 50"
      by blast
    have k: "(2::nat) ^ 48 = 281474976710656" by simp
    from h assms(2) have le: "281474976710657 * t \<le> p * 562949953421312"
      unfolding k by linarith
    from percent_mono[OF _ assms(1) _ assms(3) le r(1) assms(4) r(2) y]
    have "(of_int a0 * 2 powi b0 :: rat) \<le> of_int a * 2 powi b" by simp
    moreover from r(3) have "(of_int 50 :: rat) < of_int a0 * 2 powi b0" unfolding float_gt_iff .
    ultimately have "(of_int 50 :: rat) < of_int a * 2 powi b" by simp
    then show "float_gt (py_mul x 100) 50" unfolding y float_gt_iff .
  qed
qed

section \<open>Properties of the aggregator\<close>

lemma count_three_labels:
  "set labels \<subseteq> {ustr ''positive'', ustr ''negative'', ustr ''neutral''} \<Longrightarrow>
   count_list labels (ustr ''positive'') + count_list labels (ustr ''neutral'') +
   count_list labels (ustr ''negative'') = length labels"
  using labels_distinct by (induction labels) auto

lemma count_list_replicate: "count_list (replicate n x) y = (if x = y then n else 0)"
  by (induction n) auto

lemma keys_distinct:
  "ustr ''Positive'' \<noteq> ustr ''Neutral''" "ustr ''Positive'' \<noteq> ustr ''Negative''"
  "ustr ''Neutral'' \<noteq> ustr ''Negative''" "ustr ''Negative'' \<noteq> ustr ''Positive''"
  "ustr ''Negative'' \<noteq> ustr ''Neutral''"
  by (simp_all add: ustr_def)

lemma dict_get_distribution:
  "dict_get (sentiment_distribution s) (ustr ''Positive'') = Inr (count_list s (ustr ''positive''))"
  "dict_get (sentiment_distribution s) (ustr ''Negative'') = Inr (count_list s (ustr ''negative''))"
  by (simp_all add: dict_get_def sentiment_distribution_def keys_distinct)

lemma percent_of_ok:
  assumes "0 < t" "v \<le> t" "dict_get d k = Inr v"
  shows "\<exists>p. percent_of d k t = Inr p"
proof -
  from py_truediv_ok[OF assms(1,2)] obtain m e where "py_truediv v t = Inr (Finite m e)" by blast
  with assms(3) show ?thesis by (simp add: percent_of_def)
qed

lemma summary_insights_form:
  assumes "s \<noteq> []"
  shows "\<exists>pp np.
     percent_of (sentiment_distribution s) (ustr ''Positive'') (length s) = Inr pp \<and>
     percent_of (sentiment_distribution s) (ustr ''Negative'') (length s) = Inr np \<and>
     generate_summary_insights (sentiment_distribution s) (length s) =
       Inr ([threshold_insight pp np] @
            (if count_list s (ustr ''positive'') > count_list s (ustr ''negative'') * 2
             then [ustr ''Strong positive sentiment indicates high visitor satisfaction'']
             else []))"
proof -
  from assms have t: "0 < length s" by simp
  from percent_of_ok[OF t count_le_length dict_get_distribution(1)]
  obtain pp where pp: "percent_of (sentiment_distribution s) (ustr ''Positive'') (length s) = Inr pp"
    by blast
  from percent_of_ok[OF t count_le_length dict_get_distribution(2)]
  obtain np where np: "percent_of (sentiment_distribution s) (ustr ''Negative'') (length s) = Inr np"
    by blast
  from assms pp np show ?thesis
    by (simp add: generate_summary_insights_def dict_get_distribution)
qed

lemma summary_insights_zero: "generate_summary_insights d 0 = Inr []"
  by (simp add: generate_summary_insights_def)

lemma percentages_zero: "sentiment_percentages d 0 = Inr (map (\<lambda>(k, v). (k, IntNum 0)) d)"
  by (induction d) (auto simp: percentage_def)

lemma percentage_ok: "v \<le> t \<Longrightarrow> \<exists>p. percentage v t = Inr p"
proof (cases "0 < t")
  case False
  then show ?thesis by (simp add: percentage_def)
next
  case True
  assume "v \<le> t"
  from py_truediv_ok[OF True this] obtain m e where "py_truediv v t = Inr (Finite m e)" by blast
  with True show ?thesis by (simp add: percentage_def)
qed

lemma percentages_ok:
  "\<forall>(k, v)\<in>set d. v \<le> t \<Longrightarrow> \<exists>ps. sentiment_percentages d t = Inr ps \<and> map fst ps = map fst d"
proof (induction d)
  case Nil
  then show ?case by simp
next
  case (Cons kv d)
  obtain k v where kv: "kv = (k, v)" by (cases kv)
  with Cons.prems have "v \<le> t" by simp
  from percentage_ok[OF this] obtain p where p: "percentage v t = Inr p" by blast
  from Cons obtain ps where "sentiment_percentages d t = Inr ps" "map fst ps = map fst d" by auto
  with p kv show ?case by simp
qed

lemma distribution_percentages_ok:
  "\<exists>ps. sentiment_percentages (sentiment_distribution s) (length s) = Inr ps \<and>
     map fst ps = [ustr ''Positive'', ustr ''Neutral'', ustr ''Negative'']"
proof -
  have "\<forall>(k, v)\<in>set (sentiment_distribution s). v \<le> length s"
    by (simp add: sentiment_distribution_def count_le_length)
  from percentages_ok[OF this] show ?thesis by (simp add: sentiment_distribution_def)
qed

lemma summary_insights_ok:
  "\<exists>ins. generate_summary_insights (sentiment_distribution s) (length s) = Inr ins"
proof (cases "s = []")
  case True
  then show ?thesis by (simp add: summary_insights_zero)
next
  case False
  from summary_insights_form[OF False] show ?thesis by blast
qed

lemma percent_of_distribution:
  assumes "percent_of (sentiment_distribution s) (ustr ''Positive'') (length s) = Inr pp"
    and "percent_of (sentiment_distribution s) (ustr ''Negative'') (length s) = Inr np"
  shows "\<exists>x. py_truediv (count_list s (ustr ''positive'')) (length s) = Inr x \<and> pp = py_mul x 100"
    and "\<exists>x. py_truediv (count_list s (ustr ''negative'')) (length s) = Inr x \<and> np = py_mul x 100"
  using assms by (auto simp: percent_of_def dict_get_distribution split: sum.splits)

lemma percent_exact:
  assumes "s \<noteq> []" "length s \<le> 2 ^ 48"
    and "percent_of (sentiment_distribution s) (ustr ''Positive'') (length s) = Inr pp"
    and "percent_of (sentiment_distribution s) (ustr ''Negative'') (length s) = Inr np"
  shows "float_gt pp 70 \<longleftrightarrow> 7 * length s < 10 * count_list s (ustr ''positive'')"
    and "float_gt pp 50 \<longleftrightarrow> length s < 2 * count_list s (ustr ''positive'')"
    and "float_gt np 50 \<longleftrightarrow> length s < 2 * count_list s (ustr ''negative'')"
proof -
  from assms(1) have t: "0 < length s" by simp
  from percent_of_distribution(1)[OF assms(3,4)] obtain x where
    x: "py_truediv (count_list s (ustr ''positive'')) (length s) = Inr x" "pp = py_mul x 100"
    by blast
  from percent_of_distribution(2)[OF assms(3,4)] obtain y where
    y: "py_truediv (count_list s (ustr ''negative'')) (length s) = Inr y" "np = py_mul y 100"
    by blast
  show "float_gt pp 70 \<longleftrightarrow> 7 * length s < 10 * count_list s (ustr ''positive'')"
    unfolding x(2) by (rule percent_gt_70[OF t assms(2) count_le_length x(1)])
  show "float_gt pp 50 \<longleftrightarrow> length s < 2 * count_list s (ustr ''positive'')"
    unfolding x(2) by (rule percent_gt_50[OF t assms(2) count_le_length x(1)])
  show "float_gt np 50 \<longleftrightarrow> length s < 2 * count_list s (ustr ''negative'')"
    unfolding y(2) by (rule percent_gt_50[OF t assms(2) count_le_length y(1)])
qed

lemma classify_reviews_labels:
  "set (fst (classify_reviews str_lower gen acc reviews w)) \<subseteq>
     set acc \<union> {ustr ''positive'', ustr ''negative'', ustr ''neutral''}"
proof (induction reviews arbitrary: acc w)
  case Nil
  then show ?case by auto
next
  case (Cons r rs)
  show ?case
  proof (cases "10 < length (strip r)")
    case False
    with Cons show ?thesis by simp
  next
    case True
    obtain s w' where a: "analyze_single_review_sentiment str_lower gen r w = (s, w')"
      by (cases "analyze_single_review_sentiment str_lower gen r w")
    with sentiment_label[of str_lower gen r w]
    have "s \<in> {ustr ''positive'', ustr ''negative'', ustr ''neutral''}" by simp
    with Cons[of "acc @ [s]" w'] True a show ?thesis by auto
  qed
qed

text \<open>
  C6. For every sequence of the three labels, the distribution has exactly the keys
  \<open>Positive\<close>, \<open>Neutral\<close>, \<open>Negative\<close>, and its counts, natural numbers, add up to
  the length of the sequence; so they do for the labels that the analysis collects.
\<close>

theorem distribution_sums_to_label_count:
  "(set labels \<subseteq> {ustr ''positive'', ustr ''negative'', ustr ''neutral''} \<longrightarrow>
      map fst (sentiment_distribution labels) = [ustr ''Positive'', ustr ''Neutral'', ustr ''Negative''] \<and>
      sum_list (map snd (sentiment_distribution labels)) = length labels) \<and>
   sum_list (map snd (sentiment_distribution (fst (classify_reviews str_lower gen [] reviews w)))) =
     length (fst (classify_reviews str_lower gen [] reviews w))"
proof (intro conjI impI)
  assume h: "set labels \<subseteq> {ustr ''positive'', ustr ''negative'', ustr ''neutral''}"
  show "map fst (sentiment_distribution labels) = [ustr ''Positive'', ustr ''Neutral'', ustr ''Negative'']"
    by (simp add: sentiment_distribution_def)
  from count_three_labels[OF h] show "sum_list (map snd (sentiment_distribution labels)) = length labels"
    by (simp add: sentiment_distribution_def)
next
  from classify_reviews_labels[of str_lower gen "[]" reviews w]
  have "set (fst (classify_reviews str_lower gen [] reviews w)) \<subseteq>
      {ustr ''positive'', ustr ''negative'', ustr ''neutral''}" by simp
  from count_three_labels[OF this]
  show "sum_list (map snd (sentiment_distribution (fst (classify_reviews str_lower gen [] reviews w)))) =
     length (fst (classify_reviews str_lower gen [] reviews w))"
    by (simp add: sentiment_distribution_def)
qed

theorem distribution_sums_to_label_count_witness:
  "set [ustr ''positive'', ustr ''neutral'', ustr ''positive'', ustr ''negative'']
     \<subseteq> {ustr ''positive'', ustr ''negative'', ustr ''neutral''} \<and>
   sentiment_distribution [ustr ''positive'', ustr ''neutral'', ustr ''positive'', ustr ''negative''] =
     [(ustr ''Positive'', 2), (ustr ''Neutral'', 1), (ustr ''Negative'', 1)] \<and>
   sum_list (map snd (sentiment_distribution
     [ustr ''positive'', ustr ''neutral'', ustr ''positive'', ustr ''negative''])) = 4"
  using distribution_sums_to_label_count[of
      "[ustr ''positive'', ustr ''neutral'', ustr ''positive'', ustr ''negative'']"]
  by (simp add: sentiment_distribution_def labels_distinct labels_distinct[symmetric])

text \<open>
  C8 (as the code has it). For every sequence of labels that is not empty, the two
  percentages, which are not rounded here, are computed
  without error and the rule insights are one threshold insight, chosen by the chain
  \<open>positive_pct > 70\<close>, else \<open>positive_pct > 50\<close>, else \<open>negative_pct > 50\<close>, else
  mixed, followed by the strong-positive insight exactly when the count of
  \<open>positive\<close> exceeds twice the count of \<open>negative\<close>. The comparisons are made on
  floating-point numbers; for a sequence of at most \<open>2 ^ 48\<close> labels they agree with
  the comparisons of the exact fractions. The counts 8, 1, 1 give a positive
  percentage of \<open>80.0\<close>, the overwhelmingly-positive insight and the strong-positive
  insight.
\<close>

theorem summary_insight_rule:
  "(labels \<noteq> [] \<longrightarrow>
     (\<exists>positive_pct negative_pct.
        percent_of (sentiment_distribution labels) (ustr ''Positive'') (length labels) = Inr positive_pct \<and>
        percent_of (sentiment_distribution labels) (ustr ''Negative'') (length labels) = Inr negative_pct \<and>
        generate_summary_insights (sentiment_distribution labels) (length labels) =
          Inr ((if float_gt positive_pct 70
                then [ustr ''Overwhelmingly positive reviews - visitors love this destination!'']
                else if float_gt positive_pct 50
                then [ustr ''Generally positive sentiment with most visitors having good experiences'']
                else if float_gt negative_pct 50
                then [ustr ''Concerning number of negative reviews - consider investigating common issues'']
                else [ustr ''Mixed reviews with varied visitor experiences'']) @
               (if count_list labels (ustr ''negative'') * 2 < count_list labels (ustr ''positive'')
                then [ustr ''Strong positive sentiment indicates high visitor satisfaction'']
                else [])))) \<and>
   (labels \<noteq> [] \<and> length labels \<le> 2 ^ 48 \<longrightarrow>
      generate_summary_insights (sentiment_distribution labels) (length labels) =
      Inr ((if 7 * length labels < 10 * count_list labels (ustr ''positive'')
            then [ustr ''Overwhelmingly positive reviews - visitors love this destination!'']
            else if length labels < 2 * count_list labels (ustr ''positive'')
            then [ustr ''Generally positive sentiment with most visitors having good experiences'']
            else if length labels < 2 * count_list labels (ustr ''negative'')
            then [ustr ''Concerning number of negative reviews - consider investigating common issues'']
            else [ustr ''Mixed reviews with varied visitor experiences'']) @
           (if count_list labels (ustr ''negative'') * 2 < count_list labels (ustr ''positive'')
            then [ustr ''Strong positive sentiment indicates high visitor satisfaction'']
            else []))) \<and>
   (\<exists>positive_pct.
      percent_of [(ustr ''Positive'', 8), (ustr ''Neutral'', 1), (ustr ''Negative'', 1)]
        (ustr ''Positive'') 10 = Inr positive_pct \<and>
      double_val positive_pct = Some 80) \<and>
   generate_summary_insights [(ustr ''Positive'', 8), (ustr ''Neutral'', 1), (ustr ''Negative'', 1)] 10 =
     Inr [ustr ''Overwhelmingly positive reviews - visitors love this destination!'',
          ustr ''Strong positive sentiment indicates high visitor satisfaction'']"
proof (intro conjI impI)
  assume "labels \<noteq> []"
  from summary_insights_form[OF this] obtain pp np where
    "percent_of (sentiment_distribution labels) (ustr ''Positive'') (length labels) = Inr pp"
    "percent_of (sentiment_distribution labels) (ustr ''Negative'') (length labels) = Inr np"
    "generate_summary_insights (sentiment_distribution labels) (length labels) =
       Inr ([threshold_insight pp np] @
            (if count_list labels (ustr ''positive'') > count_list labels (ustr ''negative'') * 2
             then [ustr ''Strong positive sentiment indicates high visitor satisfaction'']
             else []))"
    by blast
  then show "\<exists>positive_pct negative_pct.
        percent_of (sentiment_distribution labels) (ustr ''Positive'') (length labels) = Inr positive_pct \<and>
        percent_of (sentiment_distribution labels) (ustr ''Negative'') (length labels) = Inr negative_pct \<and>
        generate_summary_insights (sentiment_distribution labels) (length labels) =
          Inr ((if float_gt positive_pct 70
                then [ustr ''Overwhelmingly positive reviews - visitors love this destination!'']
                else if float_gt positive_pct 50
                then [ustr ''Generally positive sentiment with most visitors having good experiences'']
                else if float_gt negative_pct 50
                then [ustr ''Concerning number of negative reviews - consider investigating common issues'']
                else [ustr ''Mixed reviews with varied visitor experiences'']) @
               (if count_list labels (ustr ''negative'') * 2 < count_list labels (ustr ''positive'')
                then [ustr ''Strong positive sentiment indicates high visitor satisfaction'']
                else []))"
    by (intro exI[of _ pp] exI[of _ np]) (simp add: threshold_insight_def)
next
  assume h: "labels \<noteq> [] \<and> length labels \<le> 2 ^ 48"
  then have ne: "labels \<noteq> []" and len: "length labels \<le> 2 ^ 48" by simp_all
  from summary_insights_form[OF ne] obtain pp np where
    p: "percent_of (sentiment_distribution labels) (ustr ''Positive'') (length labels) = Inr pp"
       "percent_of (sentiment_distribution labels) (ustr ''Negative'') (length labels) = Inr np" and
    g: "generate_summary_insights (sentiment_distribution labels) (length labels) =
       Inr ([threshold_insight pp np] @
            (if count_list labels (ustr ''positive'') > count_list labels (ustr ''negative'') * 2
             then [ustr ''Strong positive sentiment indicates high visitor satisfaction'']
             else []))"
    by blast
  note e = percent_exact[OF ne len p]
  show "generate_summary_insights (sentiment_distribution labels) (length labels) =
      Inr ((if 7 * length labels < 10 * count_list labels (ustr ''positive'')
            then [ustr ''Overwhelmingly positive reviews - visitors love this destination!'']
            else if length labels < 2 * count_list labels (ustr ''positive'')
            then [ustr ''Generally positive sentiment with most visitors having good experiences'']
            else if length labels < 2 * count_list labels (ustr ''negative'')
            then [ustr ''Concerning number of negative reviews - consider investigating common issues'']
            else [ustr ''Mixed reviews with varied visitor experiences'']) @
           (if count_list labels (ustr ''negative'') * 2 < count_list labels (ustr ''positive'')
            then [ustr ''Strong positive sentiment indicates high visitor satisfaction'']
            else []))"
    unfolding g by (simp add: threshold_insight_def e)
next
  have "percent_of [(ustr ''Positive'', 8), (ustr ''Neutral'', 1), (ustr ''Negative'', 1)]
        (ustr ''Positive'') 10 = Inr (Finite 5629499534213120 (- 46))"
    by (simp add: eval_float)
  moreover have "double_val (Finite 5629499534213120 (- 46)) = Some 80" by simp
  ultimately show "\<exists>positive_pct.
      percent_of [(ustr ''Positive'', 8), (ustr ''Neutral'', 1), (ustr ''Negative'', 1)]
        (ustr ''Positive'') 10 = Inr positive_pct \<and>
      double_val positive_pct = Some 80"
    by blast
next
  show "generate_summary_insights [(ustr ''Positive'', 8), (ustr ''Neutral'', 1), (ustr ''Negative'', 1)] 10 =
     Inr [ustr ''Overwhelmingly positive reviews - visitors love this destination!'',
          ustr ''Strong positive sentiment indicates high visitor satisfaction'']"
    by (simp add: generate_summary_insights_def threshold_insight_def eval_float keys_distinct)
qed

theorem summary_insight_rule_witness:
  "replicate 8 (ustr ''positive'') @ [ustr ''negative'', ustr ''neutral''] \<noteq> [] \<and>
   length (replicate 8 (ustr ''positive'') @ [ustr ''negative'', ustr ''neutral'']) \<le> 2 ^ 48 \<and>
   sentiment_distribution (replicate 8 (ustr ''positive'') @ [ustr ''negative'', ustr ''neutral'']) =
     [(ustr ''Positive'', 8), (ustr ''Neutral'', 1), (ustr ''Negative'', 1)] \<and>
   generate_summary_insights
     (sentiment_distribution (replicate 8 (ustr ''positive'') @ [ustr ''negative'', ustr ''neutral'']))
     (length (replicate 8 (ustr ''positive'') @ [ustr ''negative'', ustr ''neutral''])) =
     Inr [ustr ''Overwhelmingly positive reviews - visitors love this destination!'',
          ustr ''Strong positive sentiment indicates high visitor satisfaction'']"
proof -
  let ?labels = "replicate 8 (ustr ''positive'') @ [ustr ''negative'', ustr ''neutral'']"
  have cp: "count_list ?labels (ustr ''positive'') = 8"
    by (simp add: count_list_replicate labels_distinct labels_distinct[symmetric])
  have cn: "count_list ?labels (ustr ''negative'') = 1"
    by (simp add: count_list_replicate labels_distinct labels_distinct[symmetric])
  have cu: "count_list ?labels (ustr ''neutral'') = 1"
    by (simp add: count_list_replicate labels_distinct labels_distinct[symmetric])
  have n: "length ?labels = 10" by simp
  have ne: "?labels \<noteq> []" by simp
  have len: "length ?labels \<le> 2 ^ 48" unfolding n by simp
  have d: "sentiment_distribution ?labels =
      [(ustr ''Positive'', 8), (ustr ''Neutral'', 1), (ustr ''Negative'', 1)]"
    unfolding sentiment_distribution_def cp cn cu by (rule refl)
  note r = summary_insight_rule[of ?labels, THEN conjunct2, THEN conjunct1, rule_format]
  from r[OF conjI[OF ne len]]
  have "generate_summary_insights (sentiment_distribution ?labels) (length ?labels) =
     Inr [ustr ''Overwhelmingly positive reviews - visitors love this destination!'',
          ustr ''Strong positive sentiment indicates high visitor satisfaction'']"
    unfolding cp cn n by simp
  with ne len d show ?thesis by (intro conjI)
qed

text \<open>
  C8 as stated fails when the percentage of the chain is read as the one of the
  result, rounded to one decimal place: for 145 positive labels of 207 that
  percentage is \<open>70.0\<close>, which is not above 70, and the rule of the specification
  gives the generally-positive insight, while the code, on the unrounded
  \<open>70.048...\<close>, gives the overwhelmingly-positive one.
\<close>

theorem summary_insight_rounding_counterexample:
  "sentiment_percentages [(ustr ''Positive'', 145), (ustr ''Neutral'', 0), (ustr ''Negative'', 62)] 207 =
     Inr [(ustr ''Positive'', FloatNum (Finite 4925812092436480 (- 46))),
          (ustr ''Neutral'', FloatNum (Finite 0 0)),
          (ustr ''Negative'', FloatNum (Finite 8444249301319680 (- 48)))] \<and>
   double_val (Finite 4925812092436480 (- 46)) = Some 70 \<and>
   spec_rule_insights [(ustr ''Positive'', 145), (ustr ''Neutral'', 0), (ustr ''Negative'', 62)] 207 =
     Inr [ustr ''Generally positive sentiment with most visitors having good experiences'',
          ustr ''Strong positive sentiment indicates high visitor satisfaction''] \<and>
   generate_summary_insights [(ustr ''Positive'', 145), (ustr ''Neutral'', 0), (ustr ''Negative'', 62)] 207 =
     Inr [ustr ''Overwhelmingly positive reviews - visitors love this destination!'',
          ustr ''Strong positive sentiment indicates high visitor satisfaction''] \<and>
   generate_summary_insights [(ustr ''Positive'', 145), (ustr ''Neutral'', 0), (ustr ''Negative'', 62)] 207 \<noteq>
     spec_rule_insights [(ustr ''Positive'', 145), (ustr ''Neutral'', 0), (ustr ''Negative'', 62)] 207"
proof -
  have p: "sentiment_percentages [(ustr ''Positive'', 145), (ustr ''Neutral'', 0), (ustr ''Negative'', 62)] 207 =
     Inr [(ustr ''Positive'', FloatNum (Finite 4925812092436480 (- 46))),
          (ustr ''Neutral'', FloatNum (Finite 0 0)),
          (ustr ''Negative'', FloatNum (Finite 8444249301319680 (- 48)))]"
    by (simp add: eval_float)
  have v: "double_val (Finite 4925812092436480 (- 46)) = Some 70" by simp
  have s: "spec_rule_insights [(ustr ''Positive'', 145), (ustr ''Neutral'', 0), (ustr ''Negative'', 62)] 207 =
     Inr [ustr ''Generally positive sentiment with most visitors having good experiences'',
          ustr ''Strong positive sentiment indicates high visitor satisfaction'']"
    unfolding spec_rule_insights_def p by (simp add: dict_get_def number_gt_def keys_distinct)
  have g: "generate_summary_insights [(ustr ''Positive'', 145), (ustr ''Neutral'', 0), (ustr ''Negative'', 62)] 207 =
     Inr [ustr ''Overwhelmingly positive reviews - visitors love this destination!'',
          ustr ''Strong positive sentiment indicates high visitor satisfaction'']"
    by (simp add: generate_summary_insights_def threshold_insight_def eval_float keys_distinct)
  have ne: "ustr ''Overwhelmingly positive reviews - visitors love this destination!'' \<noteq>
      ustr ''Generally positive sentiment with most visitors having good experiences''"
    by (simp add: ustr_def)
  from p v s g ne show ?thesis by simp
qed

section \<open>Properties of the analysis\<close>

lemma classify_reviews_length:
  "length (fst (classify_reviews str_lower gen acc reviews w)) =
     length acc + length (filter (\<lambda>r. 10 < length (strip r)) reviews)"
proof (induction reviews arbitrary: acc w)
  case Nil
  then show ?case by simp
next
  case (Cons r rs)
  show ?case
  proof (cases "10 < length (strip r)")
    case False
    with Cons show ?thesis by simp
  next
    case True
    obtain s w' where a: "analyze_single_review_sentiment str_lower gen r w = (s, w')"
      by (cases "analyze_single_review_sentiment str_lower gen r w")
    with Cons[of "acc @ [s]" w'] True show ?thesis by simp
  qed
qed

lemma classify_reviews_prompts:
  "prompts (snd (classify_reviews str_lower gen acc reviews w)) =
     prompts w @ map sentiment_prompt (filter (\<lambda>r. 10 < length (strip r)) reviews)"
proof (induction reviews arbitrary: acc w)
  case Nil
  then show ?case by simp
next
  case (Cons r rs)
  show ?case
  proof (cases "10 < length (strip r)")
    case False
    with Cons show ?thesis by simp
  next
    case True
    obtain s w' where a: "analyze_single_review_sentiment str_lower gen r w = (s, w')"
      by (cases "analyze_single_review_sentiment str_lower gen r w")
    with sentiment_prompts[of str_lower gen r w]
    have "prompts w' = prompts w @ [sentiment_prompt r]" by simp
    with Cons[of "acc @ [s]" w'] True a show ?thesis by simp
  qed
qed

lemma classify_reviews_none:
  "\<forall>r\<in>set reviews. length (strip r) \<le> 10 \<Longrightarrow>
   classify_reviews str_lower gen acc reviews w = (acc, w)"
  by (induction reviews) auto

lemma analyze_reviews_form:
  assumes "split_reviews t \<noteq> []"
  shows "\<exists>sentiments w1 overall w2 summary percentages.
     classify_reviews str_lower gen [] (split_reviews t) w = (sentiments, w1) \<and>
     get_overall_insights gen t w1 = (overall, w2) \<and>
     generate_summary_insights (sentiment_distribution sentiments) (length sentiments) = Inr summary \<and>
     sentiment_percentages (sentiment_distribution sentiments) (length sentiments) = Inr percentages \<and>
     analyze_reviews str_lower gen t w =
       (Inr [(ustr ''total_reviews'', Num (IntNum (length sentiments))),
             (ustr ''sentiment_distribution'', CountDict (sentiment_distribution sentiments)),
             (ustr ''insights'', StrList (overall @ summary)),
             (ustr ''sentiment_percentages'', NumDict percentages)], w2)"
proof -
  obtain sentiments w1 where c: "classify_reviews str_lower gen [] (split_reviews t) w = (sentiments, w1)"
    by (cases "classify_reviews str_lower gen [] (split_reviews t) w")
  obtain overall w2 where g: "get_overall_insights gen t w1 = (overall, w2)"
    by (cases "get_overall_insights gen t w1")
  from summary_insights_ok obtain summary where
    s: "generate_summary_insights (sentiment_distribution sentiments) (length sentiments) = Inr summary"
    by blast
  from distribution_percentages_ok obtain percentages where
    p: "sentiment_percentages (sentiment_distribution sentiments) (length sentiments) = Inr percentages"
    by blast
  from assms c g s p have "analyze_reviews str_lower gen t w =
       (Inr [(ustr ''total_reviews'', Num (IntNum (length sentiments))),
             (ustr ''sentiment_distribution'', CountDict (sentiment_distribution sentiments)),
             (ustr ''insights'', StrList (overall @ summary)),
             (ustr ''sentiment_percentages'', NumDict percentages)], w2)"
    by (simp add: analyze_reviews_def Let_def)
  with c g s p show ?thesis by blast
qed

text \<open>
  C3. When the segmenter returns no segment, and so for every blank text, the analysis
  returns the dictionary whose only entry is \<open>error\<close> with the message
  \<open>No valid reviews found\<close>; it raises nothing, and the world is unchanged: the
  model is not called.
\<close>

theorem no_valid_reviews_error:
  "(split_reviews t = [] \<longrightarrow>
      analyze_reviews str_lower gen t w =
        (Inr [(ustr ''error'', Str (ustr ''No valid reviews found''))], w)) \<and>
   (strip t = [] \<longrightarrow>
      analyze_reviews str_lower gen t w =
        (Inr [(ustr ''error'', Str (ustr ''No valid reviews found''))], w))"
  using split_reviews_blank[of t] by (simp add: analyze_reviews_def)

theorem no_valid_reviews_error_witness:
  "strip [32, 10, 9] = [] \<and> split_reviews [32, 10, 9] = [] \<and>
   analyze_reviews ascii_lower scripted_model [32, 10, 9] (start_world []) =
     (Inr [(ustr ''error'', Str (ustr ''No valid reviews found''))], start_world [])"
proof -
  have a: "strip [32, 10, 9] = []" by (simp add: eval_strings)
  have b: "split_reviews [32, 10, 9] = []" by (simp add: split_reviews_def eval_strings)
  from a b no_valid_reviews_error[of "[32, 10, 9]" ascii_lower scripted_model "start_world []"]
  show ?thesis by simp
qed

text \<open>
  C5. The prompts sent to the model are the sentiment prompts of exactly the segments
  whose trimmed length exceeds 10, in order, followed by the one insight prompt when
  there is a segment at all. When there is at least one segment the analysis succeeds
  and \<open>total_reviews\<close> is the number of these segments. A text of one segment of 5
  characters and one of 50 gives \<open>total_reviews = 1\<close>.
\<close>

theorem total_reviews_counts_eligible:
  "prompts (snd (analyze_reviews str_lower gen t w)) =
     prompts w @ map sentiment_prompt (filter (\<lambda>r. 10 < length (strip r)) (split_reviews t)) @
     (if split_reviews t = [] then [] else [insights_prompt t]) \<and>
   (split_reviews t \<noteq> [] \<longrightarrow>
     (\<exists>rest.
        fst (analyze_reviews str_lower gen t w) =
          Inr ((ustr ''total_reviews'',
                Num (IntNum (length (filter (\<lambda>r. 10 < length (strip r)) (split_reviews t))))) # rest)))"
proof (cases "split_reviews t = []")
  case True
  then show ?thesis by (simp add: analyze_reviews_def)
next
  case False
  from analyze_reviews_form[OF False, of str_lower gen w]
  obtain sentiments w1 overall w2 summary percentages where
    c: "classify_reviews str_lower gen [] (split_reviews t) w = (sentiments, w1)" and
    g: "get_overall_insights gen t w1 = (overall, w2)" and
    a: "analyze_reviews str_lower gen t w =
       (Inr [(ustr ''total_reviews'', Num (IntNum (length sentiments))),
             (ustr ''sentiment_distribution'', CountDict (sentiment_distribution sentiments)),
             (ustr ''insights'', StrList (overall @ summary)),
             (ustr ''sentiment_percentages'', NumDict percentages)], w2)"
    by blast
  from c classify_reviews_length[of str_lower gen "[]" "split_reviews t" w]
  have len: "length sentiments = length (filter (\<lambda>r. 10 < length (strip r)) (split_reviews t))"
    by simp
  from c classify_reviews_prompts[of str_lower gen "[]" "split_reviews t" w]
  have p1: "prompts w1 =
      prompts w @ map sentiment_prompt (filter (\<lambda>r. 10 < length (strip r)) (split_reviews t))"
    by simp
  from g overall_insights_prompts[of gen t w1]
  have p2: "prompts w2 = prompts w1 @ [insights_prompt t]" by simp
  from False a len p1 p2 show ?thesis by simp
qed

theorem total_reviews_counts_eligible_witness:
  "split_reviews (ustr ''Nice!'' @ [10, 10] @ ustr ''The rooms were clean and the staff were very kind!'')
     = [ustr ''Nice!'', ustr ''The rooms were clean and the staff were very kind!''] \<and>
   length (ustr ''Nice!'') = 5 \<and>
   length (ustr ''The rooms were clean and the staff were very kind!'') = 50 \<and>
   (\<exists>rest.
     fst (analyze_reviews ascii_lower scripted_model
           (ustr ''Nice!'' @ [10, 10] @ ustr ''The rooms were clean and the staff were very kind!'')
           (start_world [Inr (ustr ''positive'')])) =
       Inr ((ustr ''total_reviews'', Num (IntNum 1)) # rest))"
proof -
  let ?t = "ustr ''Nice!'' @ [10, 10] @ ustr ''The rooms were clean and the staff were very kind!''"
  have s: "split_reviews ?t = [ustr ''Nice!'', ustr ''The rooms were clean and the staff were very kind!'']"
    by (simp add: split_reviews_def eval_strings)
  have n: "length (filter (\<lambda>r. 10 < length (strip r)) (split_reviews ?t)) = 1"
    unfolding s by (simp add: eval_strings)
  have h: "split_reviews ?t \<noteq> []" unfolding s by simp
  from h total_reviews_counts_eligible[of ascii_lower scripted_model ?t
      "start_world [Inr (ustr ''positive'')]"]
  have "\<exists>rest. fst (analyze_reviews ascii_lower scripted_model ?t (start_world [Inr (ustr ''positive'')])) =
       Inr ((ustr ''total_reviews'', Num (IntNum 1)) # rest)"
    unfolding n by blast
  with s show ?thesis by (simp add: ustr_def)
qed

text \<open>
  C7. With a total of zero the aggregator divides nothing: the rule insights are
  empty and every percentage is the integer \<open>0\<close>. The analysis never fails, with
  \<open>ZeroDivisionError\<close> or otherwise; when no segment is long enough to be classified
  its result has the total \<open>0\<close>, three counts of \<open>0\<close>, three percentages of \<open>0\<close> and
  the insights of the model only.
\<close>

theorem no_division_by_zero:
  "generate_summary_insights d 0 = Inr [] \<and>
   sentiment_percentages d 0 = Inr (map (\<lambda>(k, v). (k, IntNum 0)) d) \<and>
   (\<exists>result. fst (analyze_reviews str_lower gen t w) = Inr result) \<and>
   (split_reviews t \<noteq> [] \<and> filter (\<lambda>r. 10 < length (strip r)) (split_reviews t) = [] \<longrightarrow>
      fst (analyze_reviews str_lower gen t w) =
        Inr [(ustr ''total_reviews'', Num (IntNum 0)),
             (ustr ''sentiment_distribution'',
              CountDict [(ustr ''Positive'', 0), (ustr ''Neutral'', 0), (ustr ''Negative'', 0)]),
             (ustr ''insights'', StrList (fst (get_overall_insights gen t w))),
             (ustr ''sentiment_percentages'',
              NumDict [(ustr ''Positive'', IntNum 0), (ustr ''Neutral'', IntNum 0),
                       (ustr ''Negative'', IntNum 0)])])"
proof (intro conjI impI)
  show "generate_summary_insights d 0 = Inr []" by (rule summary_insights_zero)
  show "sentiment_percentages d 0 = Inr (map (\<lambda>(k, v). (k, IntNum 0)) d)"
    by (rule percentages_zero)
  show "\<exists>result. fst (analyze_reviews str_lower gen t w) = Inr result"
  proof (cases "split_reviews t = []")
    case True
    then show ?thesis by (simp add: analyze_reviews_def)
  next
    case False
    from analyze_reviews_form[OF False, of str_lower gen w] show ?thesis by auto
  qed
next
  assume h: "split_reviews t \<noteq> [] \<and> filter (\<lambda>r. 10 < length (strip r)) (split_reviews t) = []"
  then have "\<forall>r\<in>set (split_reviews t). length (strip r) \<le> 10"
    by (auto simp: filter_empty_conv)
  then have c: "classify_reviews str_lower gen [] (split_reviews t) w = ([], w)"
    by (rule classify_reviews_none)
  obtain overall w2 where g: "get_overall_insights gen t w = (overall, w2)"
    by (cases "get_overall_insights gen t w")
  from h c g show "fst (analyze_reviews str_lower gen t w) =
        Inr [(ustr ''total_reviews'', Num (IntNum 0)),
             (ustr ''sentiment_distribution'',
              CountDict [(ustr ''Positive'', 0), (ustr ''Neutral'', 0), (ustr ''Negative'', 0)]),
             (ustr ''insights'', StrList (fst (get_overall_insights gen t w))),
             (ustr ''sentiment_percentages'',
              NumDict [(ustr ''Positive'', IntNum 0), (ustr ''Neutral'', IntNum 0),
                       (ustr ''Negative'', IntNum 0)])]"
    by (simp add: analyze_reviews_def Let_def summary_insights_zero percentages_zero
        sentiment_distribution_def)
qed

theorem no_division_by_zero_witness:
  "split_reviews (ustr ''Nice!'' @ [10, 10] @ ustr ''So-so.'') \<noteq> [] \<and>
   filter (\<lambda>r. 10 < length (strip r)) (split_reviews (ustr ''Nice!'' @ [10, 10] @ ustr ''So-so.'')) = [] \<and>
   fst (analyze_reviews ascii_lower scripted_model (ustr ''Nice!'' @ [10, 10] @ ustr ''So-so.'')
         (start_world [Inr (ustr ''- Visitors say little'')])) =
     Inr [(ustr ''total_reviews'', Num (IntNum 0)),
          (ustr ''sentiment_distribution'',
           CountDict [(ustr ''Positive'', 0), (ustr ''Neutral'', 0), (ustr ''Negative'', 0)]),
          (ustr ''insights'', StrList [ustr ''Visitors say little'']),
          (ustr ''sentiment_percentages'',
           NumDict [(ustr ''Positive'', IntNum 0), (ustr ''Neutral'', IntNum 0),
                    (ustr ''Negative'', IntNum 0)])]"
proof -
  let ?t = "ustr ''Nice!'' @ [10, 10] @ ustr ''So-so.''"
  have s: "split_reviews ?t = [ustr ''Nice!'', ustr ''So-so.'']"
    by (simp add: split_reviews_def eval_strings)
  have a: "split_reviews ?t \<noteq> []" unfolding s by simp
  have b: "filter (\<lambda>r. 10 < length (strip r)) (split_reviews ?t) = []"
    unfolding s by (simp add: eval_strings)
  have c: "fst (get_overall_insights scripted_model ?t (start_world [Inr (ustr ''- Visitors say little'')]))
      = [ustr ''Visitors say little'']"
    by (simp add: overall_insights_value scripted_model_def start_world_def accepted_insight_def
        starts_with_bullet_def lstrip_chars_def eval_strings)
  from a b c no_division_by_zero[of _ ascii_lower scripted_model ?t
      "start_world [Inr (ustr ''- Visitors say little'')]"]
  show ?thesis by simp
qed

end
